theory Spec2Isabelle
  imports Complex_Main
begin

text \<open>
  An embedding of the generation quality gate of the Enhanced Creative Writing System:
  the sanitizer and the regeneration controller of the output script, the pattern
  analyzer and the scorer, the story-card helpers, the sampling directive, the correction
  manager and the analytics of the shared library, and the context script.  Pure
  functions of the scripts are functions here; the scripts' mutable objects (the session
  state, the configuration, the story cards) are passed in and returned; an exception is
  a value of the type \<open>error\<close>.
\<close>

section \<open>Characters and strings\<close>

text \<open>
  A JavaScript string is modelled as a list of characters, each character standing for
  one code unit below 256 (the Latin-1 range).  The character classes below are the
  ECMAScript ones restricted to that range: \<^verbatim>\<open>\s\<close> and \<^verbatim>\<open>trim\<close> remove TAB, LF, VT, FF, CR,
  SPACE and NBSP; the dot of a regular expression refuses LF and CR; \<^verbatim>\<open>\w\<close> is
  \<^verbatim>\<open>[A-Za-z0-9_]\<close>; \<^verbatim>\<open>\d\<close> is \<^verbatim>\<open>[0-9]\<close>.
\<close>

definition isWhiteSpace :: "char \<Rightarrow> bool" where
  "isWhiteSpace c =
     (c \<in> set [CHR 0x09, CHR 0x0A, CHR 0x0B, CHR 0x0C, CHR 0x0D, CHR 0x20, CHR 0xA0])"

definition isLineTerminator :: "char \<Rightarrow> bool" where
  "isLineTerminator c = (c = CHR 0x0A \<or> c = CHR 0x0D)"

definition isDigit :: "char \<Rightarrow> bool" where
  "isDigit c = (c \<in> set ''0123456789'')"

definition isWordChar :: "char \<Rightarrow> bool" where
  "isWordChar c =
     (c \<in> set ''abcdefghijklmnopqrstuvwxyzABCDEFGHIJKLMNOPQRSTUVWXYZ0123456789_'')"

definition asciiUpper :: string where
  "asciiUpper = ''ABCDEFGHIJKLMNOPQRSTUVWXYZ''"

definition asciiLowerLetters :: string where
  "asciiLowerLetters = ''abcdefghijklmnopqrstuvwxyz''"

definition latinUpper :: string where
  "latinUpper =
     [CHR 0xC0, CHR 0xC1, CHR 0xC2, CHR 0xC3, CHR 0xC4, CHR 0xC5, CHR 0xC6, CHR 0xC7,
      CHR 0xC8, CHR 0xC9, CHR 0xCA, CHR 0xCB, CHR 0xCC, CHR 0xCD, CHR 0xCE, CHR 0xCF,
      CHR 0xD0, CHR 0xD1, CHR 0xD2, CHR 0xD3, CHR 0xD4, CHR 0xD5, CHR 0xD6,
      CHR 0xD8, CHR 0xD9, CHR 0xDA, CHR 0xDB, CHR 0xDC, CHR 0xDD, CHR 0xDE]"

definition latinLower :: string where
  "latinLower =
     [CHR 0xE0, CHR 0xE1, CHR 0xE2, CHR 0xE3, CHR 0xE4, CHR 0xE5, CHR 0xE6, CHR 0xE7,
      CHR 0xE8, CHR 0xE9, CHR 0xEA, CHR 0xEB, CHR 0xEC, CHR 0xED, CHR 0xEE, CHR 0xEF,
      CHR 0xF0, CHR 0xF1, CHR 0xF2, CHR 0xF3, CHR 0xF4, CHR 0xF5, CHR 0xF6,
      CHR 0xF8, CHR 0xF9, CHR 0xFA, CHR 0xFB, CHR 0xFC, CHR 0xFD, CHR 0xFE]"

text \<open>
  Case folding of a regular expression with the \<^verbatim>\<open>i\<close> flag: against the ASCII letters of
  the patterns of this program only the two ASCII cases of a letter match.
\<close>

definition asciiLower :: "char \<Rightarrow> char" where
  "asciiLower c =
     (case map_of (zip asciiUpper asciiLowerLetters) c of Some d \<Rightarrow> d | None \<Rightarrow> c)"

text \<open>\<^verbatim>\<open>String.prototype.toLowerCase\<close> on the Latin-1 range.\<close>

definition toLowerChar :: "char \<Rightarrow> char" where
  "toLowerChar c =
     (case map_of (zip (asciiUpper @ latinUpper) (asciiLowerLetters @ latinLower)) c of
        Some d \<Rightarrow> d | None \<Rightarrow> c)"

definition toLowerCase :: "string \<Rightarrow> string" where
  "toLowerCase s = map toLowerChar s"

definition trimStart :: "string \<Rightarrow> string" where
  "trimStart s = dropWhile isWhiteSpace s"

definition trimEnd :: "string \<Rightarrow> string" where
  "trimEnd s = rev (dropWhile isWhiteSpace (rev s))"

definition trim :: "string \<Rightarrow> string" where
  "trim s = trimEnd (trimStart s)"

text \<open>\<^verbatim>\<open>s.startsWith(p)\<close>, and the same up to ASCII case (a literal under the \<^verbatim>\<open>i\<close> flag).\<close>

fun startsWith :: "string \<Rightarrow> string \<Rightarrow> bool" where
  "startsWith s [] = True"
| "startsWith [] (p # ps) = False"
| "startsWith (c # cs) (p # ps) = (c = p \<and> startsWith cs ps)"

fun startsWithCI :: "string \<Rightarrow> string \<Rightarrow> bool" where
  "startsWithCI s [] = True"
| "startsWithCI [] (p # ps) = False"
| "startsWithCI (c # cs) (p # ps) = (asciiLower c = asciiLower p \<and> startsWithCI cs ps)"

text \<open>\<^verbatim>\<open>s.includes(p)\<close>.\<close>

fun includesStr :: "string \<Rightarrow> string \<Rightarrow> bool" where
  "includesStr [] p = (p = [])"
| "includesStr (c # cs) p = (startsWith (c # cs) p \<or> includesStr cs p)"

text \<open>\<^verbatim>\<open>s.slice(-n)\<close> for a positive \<open>n\<close>: the last \<open>n\<close> characters, or all of a shorter string.\<close>

definition lastN :: "nat \<Rightarrow> 'a list \<Rightarrow> 'a list" where
  "lastN n s = drop (length s - n) s"

text \<open>\<^verbatim>\<open>s.split('.')\<close>: the pieces between the dots, never an empty array.\<close>

fun splitOn :: "char \<Rightarrow> string \<Rightarrow> string list" where
  "splitOn d [] = [Nil]"
| "splitOn d (c # cs) =
     (if c = d then [] # splitOn d cs
      else (case splitOn d cs of [] \<Rightarrow> [c # Nil] | p # ps \<Rightarrow> (c # p) # ps))"

section \<open>Regular expressions of the output script\<close>

text \<open>
  A pattern is modelled by its matcher: given the rest of the input from a position, the
  length of the match that starts there, if there is one.  \<open>removeAll\<close> is
  \<^verbatim>\<open>replace(/.../g, '')\<close>: it scans from the left, drops each match and resumes behind it.
  The third argument counts the characters of the current match still to be dropped.
\<close>

fun removeAll :: "(string \<Rightarrow> nat option) \<Rightarrow> string \<Rightarrow> nat \<Rightarrow> string" where
  "removeAll m [] k = []"
| "removeAll m (c # cs) (Suc k) = removeAll m cs k"
| "removeAll m (c # cs) 0 =
     (case m (c # cs) of
        Some (Suc n) \<Rightarrow> removeAll m cs n
      | _ \<Rightarrow> c # removeAll m cs 0)"

text \<open>
  A lazy quantifier followed by a literal: the least number of characters, all of them
  allowed by \<open>ok\<close>, after which \<open>p\<close> holds of the rest.
\<close>

fun lazyUntil :: "(char \<Rightarrow> bool) \<Rightarrow> (string \<Rightarrow> bool) \<Rightarrow> string \<Rightarrow> nat option" where
  "lazyUntil ok p [] = (if p [] then Some 0 else None)"
| "lazyUntil ok p (c # cs) =
     (if p (c # cs) then Some 0
      else if ok c then map_option Suc (lazyUntil ok p cs)
      else None)"

text \<open>\<^verbatim>\<open>/<\/?name>/\<close>\<close>

definition tagMatch :: "string \<Rightarrow> string \<Rightarrow> nat option" where
  "tagMatch name s =
     (if startsWith s (''<'' @ name @ ''>'') then Some (length name + 2)
      else if startsWith s (''</'' @ name @ ''>'') then Some (length name + 3)
      else None)"

text \<open>\<^verbatim>\<open>/<\/?candidate[^>]*>/\<close>\<close>

definition candidateMatch :: "string \<Rightarrow> nat option" where
  "candidateMatch s =
     (case (if startsWith s ''<candidate'' then Some 10
            else if startsWith s ''</candidate'' then Some 11 else None) of
        None \<Rightarrow> None
      | Some n \<Rightarrow>
          (case lazyUntil (\<lambda>c. True) (\<lambda>r. startsWith r ''>'') (drop n s) of
             None \<Rightarrow> None
           | Some j \<Rightarrow> Some (n + j + 1)))"

text \<open>\<^verbatim>\<open>/\[Internal Sampling Protocol:[\s\S]*?\]/\<close>\<close>

definition protocolBlockMatch :: "string \<Rightarrow> nat option" where
  "protocolBlockMatch s =
     (if startsWith s ''[Internal Sampling Protocol:'' then
        (case lazyUntil (\<lambda>c. True) (\<lambda>r. startsWith r '']'') (drop 28 s) of
           None \<Rightarrow> None
         | Some j \<Rightarrow> Some (28 + j + 1))
      else None)"

text \<open>\<^verbatim>\<open>/Internal Sampling Protocol:[\s\S]*?never mention this process[^\n]*/\<close>\<close>

definition protocolTextMatch :: "string \<Rightarrow> nat option" where
  "protocolTextMatch s =
     (if startsWith s ''Internal Sampling Protocol:'' then
        (case lazyUntil (\<lambda>c. True) (\<lambda>r. startsWith r ''never mention this process'')
                (drop 27 s) of
           None \<Rightarrow> None
         | Some j \<Rightarrow>
             Some (27 + j + 26 +
                   length (takeWhile (\<lambda>c. c \<noteq> CHR 0x0A) (drop (27 + j + 26) s))))
      else None)"

text \<open>
  \<^verbatim>\<open>/pre.*?post/i\<close> for two literals: the dot does not cross a line terminator.
\<close>

definition fragmentMatch :: "string \<Rightarrow> string \<Rightarrow> string \<Rightarrow> nat option" where
  "fragmentMatch pre post s =
     (if startsWithCI s pre then
        (case lazyUntil (\<lambda>c. \<not> isLineTerminator c) (\<lambda>r. startsWithCI r post)
                (drop (length pre) s) of
           None \<Rightarrow> None
         | Some j \<Rightarrow> Some (length pre + j + length post))
      else None)"

text \<open>
  \<^verbatim>\<open>/- (mentally )?generate \d+ distinct.*?candidates/i\<close>.  The optional group and the
  digits leave no choice to backtracking: the text behind the dash starts with one of the
  two words, and the character behind the digits has to be the space.
\<close>

definition generateMatch :: "string \<Rightarrow> nat option" where
  "generateMatch s =
     (if startsWithCI s ''- '' then
        (let n1 = (if startsWithCI (drop 2 s) ''mentally '' then 11 else 2) in
         if startsWithCI (drop n1 s) ''generate '' then
           (let d = length (takeWhile isDigit (drop (n1 + 9) s)) in
            if d = 0 then None
            else map_option (\<lambda>n. n1 + 9 + d + n)
                   (fragmentMatch '' distinct'' ''candidates'' (drop (n1 + 9 + d) s)))
         else None)
      else None)"

text \<open>
  \<^verbatim>\<open>replace(/stop\s*$/i, '')\<close>: the only place where the pattern can match is a
  \<^verbatim>\<open>stop\<close> followed by white space up to the end of the text.
\<close>

fun stripStop :: "string \<Rightarrow> string" where
  "stripStop [] = []"
| "stripStop (c # cs) =
     (if startsWithCI (c # cs) ''stop'' \<and> list_all isWhiteSpace (drop 4 (c # cs)) then []
      else c # stripStop cs)"

text \<open>
  \<^verbatim>\<open>replace(/\n{3,}/g, '\n\n')\<close>: a run of three or more line feeds becomes two.  The
  function drops a line feed as long as two more follow it.
\<close>

fun collapseNewlines :: "string \<Rightarrow> string" where
  "collapseNewlines (a # b # c # s) =
     (if a = CHR 0x0A \<and> b = CHR 0x0A \<and> c = CHR 0x0A then collapseNewlines (b # c # s)
      else a # collapseNewlines (b # c # s))"
| "collapseNewlines s = s"

section \<open>The sanitizer (output.js, cleanOutput and the lines behind it)\<close>

text \<open>The thirteen global replacements of \<^verbatim>\<open>cleanOutput\<close>, in the order of the source.\<close>

definition stripLeaks :: "string \<Rightarrow> string" where
  "stripLeaks output =
     (let output = removeAll (tagMatch ''response'') output 0;
          output = removeAll (tagMatch ''probability'') output 0;
          output = removeAll (tagMatch ''text'') output 0;
          output = removeAll candidateMatch output 0;
          output = removeAll (tagMatch ''selected'') output 0;
          output = removeAll protocolBlockMatch output 0;
          output = removeAll protocolTextMatch output 0;
          output = removeAll generateMatch output 0;
          output = removeAll (fragmentMatch ''- for each'' ''probability p'') output 0;
          output = removeAll (fragmentMatch ''- only consider candidates where p <'' '')'')
                     output 0;
          output = removeAll (fragmentMatch ''- randomly select one'' ''candidates'') output 0;
          output = removeAll (fragmentMatch ''- output ONLY'' ''response'') output 0;
          output = removeAll (fragmentMatch ''- never mention'' ''output'') output 0;
          output = removeAll (fragmentMatch ''from the unlikely tails'' ''distribution'')
                     output 0
      in output)"

definition cleanOutput :: "string \<Rightarrow> string" where
  "cleanOutput output =
     (let output = stripLeaks output;
          output = trim (stripStop output);
          output = trim output;
          output = collapseNewlines output
      in output)"

text \<open>
  The turn history is owned by the host.  An entry has a type (\<^verbatim>\<open>'ai'\<close>, \<^verbatim>\<open>'continue'\<close>, ...)
  and a text; a missing text and the empty text are both falsy and are both modelled by
  the empty string.
\<close>

record historyEntry =
  htype :: string
  htext :: string

text \<open>\<^verbatim>\<open>history.slice().reverse().find(h => h.type === 'ai')\<close>\<close>

definition lastAIOutput :: "historyEntry list \<Rightarrow> historyEntry option" where
  "lastAIOutput history = find (\<lambda>h. htype h = ''ai'') (rev history)"

text \<open>
  The loop \<^verbatim>\<open>for (let len = 50; len >= 10; len--)\<close> over the candidate lengths still to
  be tried; the \<^verbatim>\<open>break\<close> is the branch without a recursive call.
\<close>

fun dedupLoop :: "string \<Rightarrow> nat list \<Rightarrow> string \<Rightarrow> string" where
  "dedupLoop lastChunk [] txt = txt"
| "dedupLoop lastChunk (len # lens) txt =
     (let suffix = trim (lastN len lastChunk) in
      if suffix \<noteq> [] \<and> startsWith (trim txt) suffix
      then trim (drop (length suffix) (trim txt))
      else dedupLoop lastChunk lens txt)"

definition candidateLengths :: "nat list" where
  "candidateLengths = rev [10..<51]"

definition removeDuplicateStart :: "historyEntry list \<Rightarrow> string \<Rightarrow> string" where
  "removeDuplicateStart history txt =
     (case lastAIOutput history of
        None \<Rightarrow> txt
      | Some h \<Rightarrow>
          if htext h = [] then txt
          else dedupLoop (lastN 100 (htext h)) candidateLengths txt)"

text \<open>
  The sanitizer is the head of the output script: \<^verbatim>\<open>cleanOutput\<close>, the removal of a
  duplicated start, and the leading space.  Its result is the text that is analysed.
\<close>

definition sanitize :: "historyEntry list \<Rightarrow> string \<Rightarrow> string" where
  "sanitize history raw =
     (let txt = cleanOutput raw;
          txt = removeDuplicateStart history txt
      in if startsWith txt '' '' then txt else '' '' @ txt)"

section \<open>Configuration\<close>

record vsConfig =
  vs_enabled :: bool
  vs_k :: nat
  vs_tau :: rat
  vs_seamless :: bool
  vs_adaptive :: bool
  vs_debugLogging :: bool

record bonepokeConfig =
  bp_enabled :: bool
  fatigueThreshold :: nat
  qualityThreshold :: rat
  maxRegenAttempts :: nat
  enableDynamicCorrection :: bool
  bp_debugLogging :: bool

record systemConfig =
  persistState :: bool
  enableAnalytics :: bool

record config =
  vs :: vsConfig
  bonepoke :: bonepokeConfig
  system :: systemConfig

text \<open>The object literal \<^verbatim>\<open>CONFIG\<close> of the shared library.  Numbers are exact rationals.\<close>

definition CONFIG :: config where
  "CONFIG =
     \<lparr> vs = \<lparr> vs_enabled = True, vs_k = 5, vs_tau = 1 / 10, vs_seamless = True,
              vs_adaptive = False, vs_debugLogging = False \<rparr>,
       bonepoke = \<lparr> bp_enabled = True, fatigueThreshold = 5, qualityThreshold = 5 / 2,
                    maxRegenAttempts = 2, enableDynamicCorrection = True,
                    bp_debugLogging = False \<rparr>,
       system = \<lparr> persistState = True, enableAnalytics = False \<rparr> \<rparr>"

section \<open>Pattern analyzer and scorer (BonepokeAnalysis)\<close>

definition detectContradictions :: "string \<Rightarrow> string list" where
  "detectContradictions fragment =
     (let lines = splitOn (CHR ''.'') (toLowerCase fragment) in
      map trim
        (filter (\<lambda>line. list_ex (\<lambda>t. includesStr line t) [''already'', ''still'', ''again'']
                        \<and> includesStr line ''not'') lines))"

text \<open>\<^verbatim>\<open>s.split(/\s+/)\<close>: the pieces between the runs of white space.\<close>

function splitWS :: "string \<Rightarrow> string list" where
  "splitWS [] = [Nil]"
| "splitWS (c # cs) =
     (if isWhiteSpace c then [] # splitWS (dropWhile isWhiteSpace cs)
      else (case splitWS cs of [] \<Rightarrow> [c # Nil] | p # ps \<Rightarrow> (c # p) # ps))"
  by pat_completeness auto
termination
  by (relation "measure length") (simp_all add: length_dropWhile_le less_Suc_eq_le)

text \<open>\<^verbatim>\<open>counts[w] = (counts[w] || 0) + 1\<close> on an object whose own keys are kept in the
  order of their insertion.\<close>

fun bump :: "(string \<times> nat) list \<Rightarrow> string \<Rightarrow> (string \<times> nat) list" where
  "bump [] w = [(w, 1)]"
| "bump ((k, c) # r) w = (if k = w then (k, c + 1) # r else (k, c) # bump r w)"

text \<open>
  The keys of an object are enumerated with the array indices first, in ascending order,
  then the other keys in insertion order.  An array index is the decimal numeral of a
  number below \<open>2^32 - 1\<close>.
\<close>

definition digitValue :: "char \<Rightarrow> nat" where
  "digitValue c = length (takeWhile (\<lambda>d. d \<noteq> c) ''0123456789'')"

definition natOfDigits :: "string \<Rightarrow> nat" where
  "natOfDigits s = foldl (\<lambda>n c. 10 * n + digitValue c) 0 s"

definition isArrayIndex :: "string \<Rightarrow> bool" where
  "isArrayIndex s =
     (if s = [] \<or> \<not> list_all isDigit s then False
      else if s = ''0'' then True
      else if hd s = CHR ''0'' then False
      else natOfDigits s < 4294967295)"

definition ownEntries :: "(string \<times> nat) list \<Rightarrow> (string \<times> nat) list" where
  "ownEntries counts =
     sort_key (\<lambda>e. natOfDigits (fst e)) (filter (\<lambda>e. isArrayIndex (fst e)) counts)
     @ filter (\<lambda>e. \<not> isArrayIndex (fst e)) counts"

text \<open>
  \<^verbatim>\<open>traceFatigue\<close>.  The counting object inherits \<^verbatim>\<open>constructor\<close> and \<^verbatim>\<open>__proto__\<close> from
  \<^verbatim>\<open>Object.prototype\<close>; for these two words \<^verbatim>\<open>(counts[w] || 0) + 1\<close> is a string, never a
  number, and the later comparison with the threshold is false.  They are the only
  inherited names that are lower-case words, and they are left out of the count.
\<close>

definition fatigueTokens :: "string \<Rightarrow> string list" where
  "fatigueTokens fragment =
     filter (\<lambda>w. length w > 3)
       (splitWS (map (\<lambda>c. if \<not> isWordChar c \<and> \<not> isWhiteSpace c then CHR '' '' else c)
                   (toLowerCase fragment)))"

definition traceFatigue :: "config \<Rightarrow> string \<Rightarrow> (string \<times> nat) list" where
  "traceFatigue cfg fragment =
     (let counts = foldl bump []
                     (filter (\<lambda>w. w \<noteq> ''constructor'' \<and> w \<noteq> ''__proto__'')
                        (fatigueTokens fragment))
      in filter (\<lambda>e. snd e \<ge> fatigueThreshold (bonepoke cfg)) (ownEntries counts))"

text \<open>\<^verbatim>\<open>/^[^"]*"[^"]*"[^"]*$/\<close>: the text holds exactly two double quotes.\<close>

definition twoQuotes :: "string \<Rightarrow> bool" where
  "twoQuotes s = (length (filter (\<lambda>c. c = CHR 0x22) s) = 2)"

definition detectDrift :: "string \<Rightarrow> string list" where
  "detectDrift fragment =
     (let lines = splitOn (CHR ''.'') fragment;
          systemTerms = [''system'', ''sequence'', ''signal'', ''process'', ''loop'', ''protocol''];
          actionVerbs = [''pressed'', ''moved'', ''spoke'', ''acted'', ''responded'',
                         ''decided'', ''changed'']
      in map trim
           (filter (\<lambda>line.
              if twoQuotes (trim line) then False
              else list_ex (\<lambda>t. includesStr (toLowerCase line) t) systemTerms
                   \<and> \<not> list_ex (\<lambda>a. includesStr (toLowerCase line) a) actionVerbs) lines))"

definition calculateMarm ::
  "string \<Rightarrow> string list \<Rightarrow> (string \<times> nat) list \<Rightarrow> string list \<Rightarrow> string" where
  "calculateMarm fragment contradictions fatigue drift =
     (let txt = toLowerCase fragment;
          score = (if list_ex (\<lambda>t. includesStr txt t)
                        [''ache'', ''loop'', ''shimmer'', ''echo'', ''recursive'']
                   then 1 else 0 :: nat);
          score = score + min (length contradictions) 2;
          score = score + (if length fatigue > 0 then 1 else 0);
          score = score + (if length drift > 0 then 1 else 0)
      in if score \<ge> 3 then ''MARM: active''
         else if score = 2 then ''MARM: flicker''
         else ''MARM: suppressed'')"

record composted =
  fragment :: string
  contradictions :: "string list"
  fatigue :: "(string \<times> nat) list"
  drift :: "string list"
  marm :: string

text \<open>
  \<^verbatim>\<open>new RegExp('\\b' + p + '\\b', 'i').test(s)\<close> for a word \<open>p\<close> of letters.  The flag
  \<open>b\<close> says that the position is the start of the text or follows a character that is
  not a word character.
\<close>

fun wordTestFrom :: "string \<Rightarrow> bool \<Rightarrow> string \<Rightarrow> bool" where
  "wordTestFrom p b [] = False"
| "wordTestFrom p b (c # cs) =
     ((b \<and> startsWithCI (c # cs) p
         \<and> (case drop (length p) (c # cs) of [] \<Rightarrow> True | d # r \<Rightarrow> \<not> isWordChar d))
      \<or> wordTestFrom p (\<not> isWordChar c) cs)"

definition wordTest :: "string \<Rightarrow> string \<Rightarrow> bool" where
  "wordTest p s = wordTestFrom p True s"

text \<open>The scores are an object with five keys, kept as the list of its entries.\<close>

definition scoreOutput :: "composted \<Rightarrow> (string \<times> nat) list" where
  "scoreOutput c =
     (let hasEmotion = list_ex (\<lambda>e. includesStr (toLowerCase (fragment c)) e)
                         [''felt'', ''cried'', ''laughed'', ''trembled'', ''ache''];
          hasContradictions = length (contradictions c) > 0;
          hasDrift = length (drift c) > 0;
          hasCharacter = list_ex (\<lambda>p. wordTest p (fragment c)) [''he'', ''she'', ''i'', ''you''];
          hasDialogue = (includesStr (fragment c) [CHR 0x22] \<or> wordTest ''said'' (fragment c));
          hasFatigue = length (fatigue c) > 0
      in [(''Emotional Strength'', if hasEmotion then 4 else 2),
          (''Story Flow'', if hasContradictions \<or> hasDrift then 1 else 5),
          (''Character Clarity'', if hasCharacter then 4 else 2),
          (''Dialogue Weight'', if hasDialogue then 4 else 2),
          (''Word Variety'', if hasFatigue then 1 else 5)])"

text \<open>Decimal rendering of a count, as a template literal prints a small integer.\<close>

fun showNat :: "nat \<Rightarrow> string" where
  "showNat n =
     (if n < 10 then [''0123456789'' ! n]
      else showNat (n div 10) @ [''0123456789'' ! (n mod 10)])"

definition generateSuggestions :: "composted \<Rightarrow> string list" where
  "generateSuggestions c =
     map (\<lambda>line. ''Contradiction: '' @ [CHR 0x22] @ line @ [CHR 0x22]
                    @ '' - clarify temporal logic'') (contradictions c)
     @ map (\<lambda>line. ''Ungrounded: '' @ [CHR 0x22] @ line @ [CHR 0x22]
                      @ '' - add concrete action'') (drift c)
     @ map (\<lambda>e. ''Overused: '' @ [CHR 0x22] @ fst e @ [CHR 0x22] @ '' ('' @ showNat (snd e)
                   @ ''x) - use synonyms'') (fatigue c)"

record analysis =
  composted :: composted
  scores :: "(string \<times> nat) list"
  avgScore :: rat
  suggestions :: "string list"
  quality :: string

text \<open>
  \<^verbatim>\<open>analyze\<close>; \<open>None\<close> is the \<^verbatim>\<open>null\<close> of the source.  The time stamp of the record comes
  from the host clock and is left out.
\<close>

definition analyze :: "config \<Rightarrow> string \<Rightarrow> analysis option" where
  "analyze cfg frag =
     (if \<not> bp_enabled (bonepoke cfg) \<or> frag = [] then None
      else
        (let contradictions = detectContradictions frag;
             fatigue = traceFatigue cfg frag;
             drift = detectDrift frag;
             marm = calculateMarm frag contradictions fatigue drift;
             composted = \<lparr> fragment = frag, contradictions = contradictions,
                           fatigue = fatigue, drift = drift, marm = marm \<rparr>;
             scores = scoreOutput composted;
             suggestions = generateSuggestions composted;
             avgScore = of_nat (foldl (+) 0 (map snd scores)) / of_nat (length scores)
         in Some \<lparr> composted = composted, scores = scores, avgScore = avgScore,
                    suggestions = suggestions,
                    quality = (if avgScore \<ge> 4 then ''excellent''
                               else if avgScore \<ge> 3 then ''good''
                               else if avgScore \<ge> 2 then ''fair'' else ''poor'') \<rparr>))"

section \<open>Session state and analytics\<close>

record metrics =
  totalOutputs :: nat
  regenerations :: nat
  fatigueDetections :: nat
  driftDetections :: nat

text \<open>
  The \<^verbatim>\<open>state\<close> object of the host.  The counters that the scripts initialise with
  \<^verbatim>\<open>x = x || 0\<close> start at zero, the lists initialised with \<^verbatim>\<open>x = x || []\<close> start empty.
  The field \<^verbatim>\<open>vsHistory\<close>, which is set once and never read, and the fields of the input
  script are left out.
\<close>

record sessionState =
  initialized :: bool
  bonepokeHistory :: "analysis list"
  metrics :: metrics
  dynamicCards :: "string list"
  regenCount :: nat
  regenThisOutput :: nat
  lastBonepokeScore :: "rat option"
  lastContextAnalysis :: "analysis option"
  vsAdaptedParams :: "(nat \<times> rat) option"
  lastContextSize :: "nat option"
  lastContextWords :: "nat option"

definition emptyState :: sessionState where
  "emptyState =
     \<lparr> initialized = False, bonepokeHistory = [],
       metrics = \<lparr> totalOutputs = 0, regenerations = 0, fatigueDetections = 0,
                   driftDetections = 0 \<rparr>,
       dynamicCards = [], regenCount = 0, regenThisOutput = 0, lastBonepokeScore = None,
       lastContextAnalysis = None, vsAdaptedParams = None, lastContextSize = None,
       lastContextWords = None \<rparr>"

definition initState :: "sessionState \<Rightarrow> sessionState" where
  "initState st =
     (if \<not> initialized st then
        st \<lparr> bonepokeHistory := [],
             metrics := \<lparr> totalOutputs = 0, regenerations = 0, fatigueDetections = 0,
                          driftDetections = 0 \<rparr>,
             dynamicCards := [],
             initialized := True \<rparr>
      else st)"

definition recordOutput :: "config \<Rightarrow> analysis option \<Rightarrow> sessionState \<Rightarrow> sessionState" where
  "recordOutput cfg an st =
     (if \<not> enableAnalytics (system cfg) then st
      else
        (let m = metrics st;
             m = m \<lparr> totalOutputs := totalOutputs m + 1 \<rparr>;
             m = (case an of
                    None \<Rightarrow> m
                  | Some a \<Rightarrow>
                      (let m = (if length (fatigue (composted a)) > 0
                                then m \<lparr> fatigueDetections := fatigueDetections m + 1 \<rparr>
                                else m)
                       in if length (drift (composted a)) > 0
                          then m \<lparr> driftDetections := driftDetections m + 1 \<rparr>
                          else m))
         in st \<lparr> metrics := m \<rparr>))"

definition recordRegeneration :: "config \<Rightarrow> sessionState \<Rightarrow> sessionState" where
  "recordRegeneration cfg st =
     (if \<not> enableAnalytics (system cfg) then st
      else st \<lparr> metrics := (metrics st) \<lparr> regenerations := regenerations (metrics st) + 1 \<rparr> \<rparr>)"

text \<open>
  \<^verbatim>\<open>getSummary\<close>.  The three rates are the percentages before \<^verbatim>\<open>toFixed(1)\<close> prints
  them; the branch \<^verbatim>\<open>'0%'\<close> is the rate 0.
\<close>

record summary =
  sum_totalOutputs :: nat
  sum_regenerations :: nat
  regenRate :: rat
  fatigueRate :: rat
  driftRate :: rat

definition getSummary :: "sessionState \<Rightarrow> summary" where
  "getSummary st =
     (let m = metrics st in
      \<lparr> sum_totalOutputs = totalOutputs m,
        sum_regenerations = regenerations m,
        regenRate = (if totalOutputs m > 0
                     then of_nat (regenerations m) / of_nat (totalOutputs m) * 100 else 0),
        fatigueRate = (if totalOutputs m > 0
                       then of_nat (fatigueDetections m) / of_nat (totalOutputs m) * 100 else 0),
        driftRate = (if totalOutputs m > 0
                     then of_nat (driftDetections m) / of_nat (totalOutputs m) * 100 else 0) \<rparr>)"

section \<open>The output script\<close>

text \<open>
  The result of a modifier: \<^verbatim>\<open>{ text }\<close>, or \<^verbatim>\<open>{ text: '', stop: true }\<close> to ask the host
  for a fresh generation.  Logging through \<^verbatim>\<open>safeLog\<close> only writes to the console of
  the host and is left out.
\<close>

record modifierResult =
  rtext :: string
  rstop :: bool

definition pushHistory :: "analysis option \<Rightarrow> sessionState \<Rightarrow> sessionState" where
  "pushHistory an st =
     (case an of
        None \<Rightarrow> st
      | Some a \<Rightarrow>
          (let h = bonepokeHistory st @ [a];
               h = (if length h > 20 then lastN 20 h else h)
           in st \<lparr> bonepokeHistory := h, lastBonepokeScore := Some (avgScore a) \<rparr>))"

definition shouldRegenerate :: "config \<Rightarrow> sessionState \<Rightarrow> analysis option \<Rightarrow> bool" where
  "shouldRegenerate cfg st an =
     (if \<not> bp_enabled (bonepoke cfg) then False
      else (case an of
              None \<Rightarrow> False
            | Some a \<Rightarrow>
                if regenThisOutput st \<ge> maxRegenAttempts (bonepoke cfg) then False
                else avgScore a < qualityThreshold (bonepoke cfg)))"

definition outputModifier ::
  "config \<Rightarrow> historyEntry list \<Rightarrow> sessionState \<Rightarrow> string \<Rightarrow> modifierResult \<times> sessionState" where
  "outputModifier cfg history st raw =
     (let txt = sanitize history raw;
          an = (if bp_enabled (bonepoke cfg) then analyze cfg txt else None);
          st = pushHistory an st
      in if shouldRegenerate cfg st an then
           (let st = st \<lparr> regenCount := regenCount st + 1 \<rparr>;
                st = st \<lparr> regenThisOutput := regenThisOutput st + 1 \<rparr>;
                st = recordRegeneration cfg st
            in (\<lparr> rtext = [], rstop = True \<rparr>, st))
         else
           (let st = st \<lparr> regenThisOutput := 0 \<rparr>;
                st = recordOutput cfg an st
            in if txt = [] \<or> trim txt = [] then (\<lparr> rtext = '' '', rstop = False \<rparr>, st)
               else (\<lparr> rtext = txt, rstop = False \<rparr>, st)))"

section \<open>Story cards\<close>

text \<open>
  The guidance-card store is the array \<^verbatim>\<open>storyCards\<close> of the host.  The scripts create a
  card only through the host function \<^verbatim>\<open>addStoryCard\<close>, which is not part of the
  repository: it is taken as a parameter of the model.  A store that accepts appends a
  card that carries the given name as title and keys; a store that refuses (the feature
  is switched off) leaves the array as it is.
\<close>

record storyCard =
  title :: string
  entry :: string
  ctype :: string
  keys :: string
  description :: string

datatype error = Error string

definition addStoryCard :: "bool \<Rightarrow> string \<Rightarrow> storyCard list \<Rightarrow> storyCard list" where
  "addStoryCard accepts name cards =
     (if accepts
      then cards @ [\<lparr> title = name, entry = [], ctype = [], keys = name, description = [] \<rparr>]
      else cards)"

text \<open>\<^verbatim>\<open>findIndex\<close>, with \<open>None\<close> for \<open>-1\<close>.\<close>

fun findIndex :: "('a \<Rightarrow> bool) \<Rightarrow> 'a list \<Rightarrow> nat option" where
  "findIndex P [] = None"
| "findIndex P (x # xs) = (if P x then Some 0 else map_option Suc (findIndex P xs))"

text \<open>\<^verbatim>\<open>xs.splice(i, 1)\<close> and \<^verbatim>\<open>xs.splice(i, 0, x)\<close>.\<close>

definition removeAt :: "nat \<Rightarrow> 'a list \<Rightarrow> 'a list" where
  "removeAt i xs = take i xs @ drop (Suc i) xs"

definition insertAt :: "nat \<Rightarrow> 'a \<Rightarrow> 'a list \<Rightarrow> 'a list" where
  "insertAt i x xs = take i xs @ [x] @ drop i xs"

text \<open>
  \<^verbatim>\<open>buildCard\<close>.  Its arguments are strings and an integer by their types, so the two
  validation errors of the source cannot arise; the error that remains is the failure to
  find the card that \<^verbatim>\<open>addStoryCard\<close> was asked to create.  The result is the store; the
  card that the source returns is the one at the insertion index.
\<close>

definition buildCard ::
  "bool \<Rightarrow> string \<Rightarrow> string \<Rightarrow> string \<Rightarrow> string \<Rightarrow> string \<Rightarrow> int \<Rightarrow> storyCard list
     \<Rightarrow> error + storyCard list" where
  "buildCard accepts ttl ent typ kys descr insertionIndex cards =
     (let idx = nat (min (max 0 insertionIndex) (int (length cards)));
          cards = addStoryCard accepts ''%TEMP%'' cards
      in case findIndex (\<lambda>c. title c = ''%TEMP%'') cards of
           None \<Rightarrow> Inl (Error ''Failed to create story card'')
         | Some i \<Rightarrow>
             (let crd = (cards ! i) \<lparr> ctype := typ, title := ttl, keys := kys, entry := ent,
                                       description := descr \<rparr>;
                  cards = cards[i := crd]
              in if i \<noteq> idx then Inr (insertAt idx crd (removeAt i cards))
                 else Inr cards))"

text \<open>\<^verbatim>\<open>removeCard\<close>: the store and the success status.\<close>

definition removeCard :: "string \<Rightarrow> storyCard list \<Rightarrow> storyCard list \<times> bool" where
  "removeCard ttl cards =
     (case findIndex (\<lambda>c. title c = ttl) cards of
        Some i \<Rightarrow> (removeAt i cards, True)
      | None \<Rightarrow> (cards, False))"

section \<open>Verbalized sampling\<close>

definition VS_CARD_TITLE :: string where
  "VS_CARD_TITLE = ''VS_System''"

text \<open>
  \<^verbatim>\<open>generateInstruction\<close>.  The template prints the number \<^verbatim>\<open>tau\<close>; how the host prints
  a fraction is the parameter \<open>render\<close>.
\<close>

definition generateInstruction :: "(rat \<Rightarrow> string) \<Rightarrow> config \<Rightarrow> string" where
  "generateInstruction render cfg =
     (if \<not> vs_enabled (vs cfg) then []
      else ''[Internal Sampling Protocol:'' @ [CHR 0x0A]
         @ ''- mentally generate '' @ showNat (vs_k (vs cfg))
         @ '' distinct seamless candidate continuations'' @ [CHR 0x0A]
         @ ''- for each candidate, estimate its probability p (how typical/likely it would be)''
         @ [CHR 0x0A]
         @ ''- only consider candidates where p < '' @ render (vs_tau (vs cfg))
         @ '' (from the unlikely tails of the distribution)'' @ [CHR 0x0A]
         @ ''- randomly select one of these low-probability candidates'' @ [CHR 0x0A]
         @ ''- output ONLY the selected continuation as your natural response'' @ [CHR 0x0A]
         @ ''- never mention this process, probabilities, or candidates in your output]'')"

definition analyzeContext :: "config \<Rightarrow> string \<Rightarrow> nat \<times> rat" where
  "analyzeContext cfg context =
     (if \<not> vs_adaptive (vs cfg) then (vs_k (vs cfg), vs_tau (vs cfg))
      else
        (let isDialogue = (includesStr context [CHR 0x22] \<or> wordTest ''said'' context);
             isAction = list_ex (\<lambda>w. wordTest w context)
                          [''run'', ''fight'', ''move'', ''open'', ''close'', ''attack''];
             isDescriptive = (length context > 500)
         in if isDialogue then (7, 12 / 100)
            else if isAction then (5, 8 / 100)
            else if isDescriptive then (4, 15 / 100)
            else (vs_k (vs cfg), vs_tau (vs cfg))))"

text \<open>
  The mutable world of the context script: the configuration object, the session state
  and the story cards.
\<close>

record world =
  cfg :: config
  state :: sessionState
  storyCards :: "storyCard list"

definition ensureCard :: "bool \<Rightarrow> (rat \<Rightarrow> string) \<Rightarrow> world \<Rightarrow> error + world" where
  "ensureCard accepts render w =
     (case find (\<lambda>c. title c = VS_CARD_TITLE) (storyCards w) of
        Some found \<Rightarrow> Inr w
      | None \<Rightarrow>
          (case buildCard accepts VS_CARD_TITLE (generateInstruction render (cfg w)) ''System'' []
                  ''Verbalized Sampling - Diversity Enhancement'' 0 (storyCards w) of
             Inl e \<Rightarrow> Inl e
           | Inr cards \<Rightarrow> Inr (w \<lparr> storyCards := cards \<rparr>)))"

text \<open>
  \<^verbatim>\<open>updateCard\<close> writes the entry of the card that \<^verbatim>\<open>ensureCard\<close> returns: the first
  card of the store with the title of the sampling card.
\<close>

definition updateCard :: "bool \<Rightarrow> (rat \<Rightarrow> string) \<Rightarrow> world \<Rightarrow> error + world" where
  "updateCard accepts render w =
     (case ensureCard accepts render w of
        Inl e \<Rightarrow> Inl e
      | Inr w \<Rightarrow>
          (case findIndex (\<lambda>c. title c = VS_CARD_TITLE) (storyCards w) of
             None \<Rightarrow> Inr w
           | Some i \<Rightarrow>
               Inr (w \<lparr> storyCards :=
                          (storyCards w)[i := (storyCards w ! i)
                             \<lparr> entry := generateInstruction render (cfg w) \<rparr>] \<rparr>)))"

definition getInstruction :: "bool \<Rightarrow> (rat \<Rightarrow> string) \<Rightarrow> world \<Rightarrow> error + (string \<times> world)" where
  "getInstruction accepts render w =
     (case ensureCard accepts render w of
        Inl e \<Rightarrow> Inl e
      | Inr w \<Rightarrow> Inr (generateInstruction render (cfg w), w))"

section \<open>Dynamic correction\<close>

definition CARD_PREFIX :: string where
  "CARD_PREFIX = ''DynamicCorrection_''"

text \<open>\<^verbatim>\<open>xs.join(sep)\<close>\<close>

fun joinWith :: "string \<Rightarrow> string list \<Rightarrow> string" where
  "joinWith sep [] = []"
| "joinWith sep [x] = x"
| "joinWith sep (x # y # r) = x @ sep @ joinWith sep (y # r)"

text \<open>
  The body shared by the three correction functions: remove the old version of the card,
  build the new one at index 0, and push the title onto \<^verbatim>\<open>state.dynamicCards\<close>.  An error
  of \<^verbatim>\<open>buildCard\<close> is not caught.
\<close>

definition issueCard :: "bool \<Rightarrow> string \<Rightarrow> string \<Rightarrow> string \<Rightarrow> world \<Rightarrow> error + world" where
  "issueCard accepts cardTitle ent descr w =
     (let cards = fst (removeCard cardTitle (storyCards w)) in
      case buildCard accepts cardTitle ent ''guidance'' [] descr 0 cards of
        Inl e \<Rightarrow> Inl e
      | Inr cards \<Rightarrow>
          Inr (w \<lparr> storyCards := cards,
                   state := (state w) \<lparr> dynamicCards := dynamicCards (state w) @ [cardTitle] \<rparr> \<rparr>))"

definition correctFatigue :: "bool \<Rightarrow> (string \<times> nat) list \<Rightarrow> world \<Rightarrow> error + world" where
  "correctFatigue accepts fatigueWords w =
     (let words = take 5 (map fst fatigueWords) in
      issueCard accepts (CARD_PREFIX @ ''Variety'')
        (''[Style guidance: Avoid repeating these overused words: '' @ joinWith '', '' words
         @ ''. Use synonyms, varied phrasing, and fresh descriptions.]'')
        ''Auto-generated variety correction'' w)"

definition correctDrift :: "bool \<Rightarrow> world \<Rightarrow> error + world" where
  "correctDrift accepts w =
     issueCard accepts (CARD_PREFIX @ ''Grounding'')
       (''[Style guidance: Focus on concrete, physical actions. Show visible responses, ''
        @ ''character decisions, and tangible events. Avoid abstract system references.]'')
       ''Auto-generated grounding correction'' w"

definition correctContradictions :: "bool \<Rightarrow> world \<Rightarrow> error + world" where
  "correctContradictions accepts w =
     issueCard accepts (CARD_PREFIX @ ''Coherence'')
       (''[Style guidance: Maintain logical consistency. Check temporal sequence ''
        @ ''(before/after/already). Ensure cause and effect make sense. ''
        @ ''Verify character knowledge is consistent.]'')
       ''Auto-generated coherence correction'' w"

definition cleanup :: "world \<Rightarrow> world" where
  "cleanup w =
     w \<lparr> storyCards := foldl (\<lambda>cards ttl. fst (removeCard ttl cards)) (storyCards w)
                          (dynamicCards (state w)),
         state := (state w) \<lparr> dynamicCards := [] \<rparr> \<rparr>"

definition applyCorrections :: "bool \<Rightarrow> analysis option \<Rightarrow> world \<Rightarrow> error + world" where
  "applyCorrections accepts an w =
     (case an of
        None \<Rightarrow> Inr w
      | Some a \<Rightarrow>
          if \<not> enableDynamicCorrection (bonepoke (cfg w)) then Inr w
          else
            (let w = cleanup w;
                 c = composted a
             in case (if length (fatigue c) > 0 then correctFatigue accepts (fatigue c) w
                      else Inr w) of
                  Inl e \<Rightarrow> Inl e
                | Inr w \<Rightarrow>
                    (case (if length (drift c) > 0 then correctDrift accepts w else Inr w) of
                       Inl e \<Rightarrow> Inl e
                     | Inr w \<Rightarrow>
                         (if length (contradictions c) > 0 then correctContradictions accepts w
                          else Inr w))))"

section \<open>The context script\<close>

definition analyzeRecentHistory :: "config \<Rightarrow> historyEntry list \<Rightarrow> analysis option" where
  "analyzeRecentHistory c history =
     (let recentOutputs =
            joinWith '' '' (map htext (lastN 3 (filter (\<lambda>h. htype h = ''ai'') history)))
      in if recentOutputs = [] then None else analyze c recentOutputs)"

definition handleContinue :: "historyEntry list \<Rightarrow> string \<Rightarrow> string" where
  "handleContinue history txt =
     (if history \<noteq> [] \<and> htype (last history) = ''continue'' then
        (let lastLine = (case rev (filter (\<lambda>line. trim line \<noteq> []) (splitOn (CHR 0x0A) txt)) of
                           [] \<Rightarrow> []
                         | l # ls \<Rightarrow> l)
         in if \<not> (trim lastLine \<noteq> [] \<and> last (trim lastLine) \<in> set ''.!?'')
            then [CHR 0x0A, CHR 0x0A]
                 @ ''<SYSTEM>Continue from your last response, maintaining the same scene and tone.</SYSTEM>''
            else [])
      else [])"

text \<open>
  The context modifier works on the world and returns the text for the model; an error
  of \<^verbatim>\<open>buildCard\<close> leaves it through \<open>Inl\<close>, as an exception leaves the script (the
  world at the moment of the error is not kept).  Its four
  blocks are given in the order of the source: the dynamic corrections (lines 23 to 38),
  the adaptive sampling parameters (lines 41 to 61), the continue instruction and the
  sampling instruction (lines 64 to 86), and the context size (lines 89 to 92).
\<close>

definition correctionStep :: "bool \<Rightarrow> historyEntry list \<Rightarrow> world \<Rightarrow> error + world" where
  "correctionStep accepts history w =
     (if bp_enabled (bonepoke (cfg w)) \<and> enableDynamicCorrection (bonepoke (cfg w)) then
        (case analyzeRecentHistory (cfg w) history of
           None \<Rightarrow> Inr w
         | Some recentAnalysis \<Rightarrow>
             applyCorrections accepts (Some recentAnalysis)
               (w \<lparr> state := (state w) \<lparr> lastContextAnalysis := Some recentAnalysis \<rparr> \<rparr>))
      else Inr w)"

definition adaptStep :: "bool \<Rightarrow> (rat \<Rightarrow> string) \<Rightarrow> world \<Rightarrow> string \<Rightarrow> error + world" where
  "adaptStep accepts render w txt =
     (if vs_enabled (vs (cfg w)) \<and> vs_adaptive (vs (cfg w)) then
        (let adaptedParams = analyzeContext (cfg w) txt;
             originalK = vs_k (vs (cfg w));
             originalTau = vs_tau (vs (cfg w));
             w = w \<lparr> cfg := (cfg w) \<lparr> vs := (vs (cfg w)) \<lparr> vs_k := fst adaptedParams \<rparr> \<rparr> \<rparr>;
             w = w \<lparr> cfg := (cfg w) \<lparr> vs := (vs (cfg w)) \<lparr> vs_tau := snd adaptedParams \<rparr> \<rparr> \<rparr>
         in case updateCard accepts render w of
              Inl e \<Rightarrow> Inl e
            | Inr w \<Rightarrow>
                Inr (w \<lparr> state := (state w)
                          \<lparr> vsAdaptedParams := Some (originalK, originalTau) \<rparr> \<rparr>))
      else Inr w)"

definition injectStep ::
  "bool \<Rightarrow> (rat \<Rightarrow> string) \<Rightarrow> historyEntry list \<Rightarrow> world \<Rightarrow> string \<Rightarrow> error + (string \<times> world)" where
  "injectStep accepts render history w txt =
     (let txt = txt @ handleContinue history txt in
      if vs_enabled (vs (cfg w)) then
        (case getInstruction accepts render w of
           Inl e \<Rightarrow> Inl e
         | Inr (ins, w) \<Rightarrow> Inr (txt @ [CHR 0x0A, CHR 0x0A] @ ins, w))
      else Inr (txt, w))"

definition trackStep :: "string \<times> world \<Rightarrow> string \<times> world" where
  "trackStep r =
     (let txt = fst r; w = snd r in
      if enableAnalytics (system (cfg w)) then
        (txt, w \<lparr> state := (state w) \<lparr> lastContextSize := Some (length txt),
                                       lastContextWords := Some (length (splitWS txt)) \<rparr> \<rparr>)
      else (txt, w))"

definition contextModifier ::
  "bool \<Rightarrow> (rat \<Rightarrow> string) \<Rightarrow> historyEntry list \<Rightarrow> world \<Rightarrow> string \<Rightarrow> error + (string \<times> world)" where
  "contextModifier accepts render history w txt =
     (case correctionStep accepts history w of
        Inl e \<Rightarrow> Inl e
      | Inr w \<Rightarrow>
          (case adaptStep accepts render w txt of
             Inl e \<Rightarrow> Inl e
           | Inr w \<Rightarrow>
               (case injectStep accepts render history w txt of
                  Inl e \<Rightarrow> Inl e
                | Inr r \<Rightarrow> Inr (trackStep r))))"

section \<open>Notions used by the properties\<close>

text \<open>
  The attempts of one turn: the host calls the output script once per generation, each
  time with the history it holds at that moment and the raw text; the session state is
  threaded through.  The trace lists the result and the state after each call.
\<close>

fun runAttempts ::
  "config \<Rightarrow> sessionState \<Rightarrow> (historyEntry list \<times> string) list
     \<Rightarrow> (modifierResult \<times> sessionState) list" where
  "runAttempts c st [] = []"
| "runAttempts c st (a # rest) =
     (let r = outputModifier c (fst a) st (snd a) in r # runAttempts c (snd r) rest)"

text \<open>An attempt is of poor quality if its analysis exists and scores below the threshold.\<close>

definition poorQuality :: "config \<Rightarrow> historyEntry list \<times> string \<Rightarrow> bool" where
  "poorQuality c a =
     (case analyze c (sanitize (fst a) (snd a)) of
        None \<Rightarrow> False
      | Some an \<Rightarrow> avgScore an < qualityThreshold (bonepoke c))"

definition poorText :: string where
  "poorText = ''It is not still.''"

text \<open>
  What the scoring rules mean by presence, stated without reference to the search
  functions: a word is contained in a text if the text splits around it, and it occurs
  as a whole word if, up to ASCII case, the text splits around it with no word character
  touching it on either side.
\<close>

definition spec_contains :: "string \<Rightarrow> string \<Rightarrow> bool" where
  "spec_contains s p = (\<exists>u v. s = u @ p @ v)"

definition spec_wholeWord :: "string \<Rightarrow> string \<Rightarrow> bool" where
  "spec_wholeWord p s =
     (\<exists>u m v. s = u @ m @ v \<and> map asciiLower m = map asciiLower p
        \<and> (u = [] \<or> \<not> isWordChar (last u)) \<and> (v = [] \<or> \<not> isWordChar (hd v)))"

text \<open>The state after a series of calls, and the number of retry signals among them.\<close>

definition finalState :: "sessionState \<Rightarrow> (modifierResult \<times> sessionState) list \<Rightarrow> sessionState" where
  "finalState st trace = (if trace = [] then st else snd (last trace))"

definition retries :: "(modifierResult \<times> sessionState) list \<Rightarrow> nat" where
  "retries trace = length (filter (\<lambda>r. rstop (fst r)) trace)"

text \<open>
  The world at the start of a session: the shipped configuration, the initialised state
  and no story card; and the same world with the adaptive mode switched on.
\<close>

definition initialWorld :: world where
  "initialWorld = \<lparr> cfg = CONFIG, state = initState emptyState, storyCards = [] \<rparr>"

definition adaptiveWorld :: world where
  "adaptiveWorld =
     initialWorld \<lparr> cfg := CONFIG \<lparr> vs := (vs CONFIG) \<lparr> vs_adaptive := True \<rparr> \<rparr> \<rparr>"

definition analyticsOn :: config where
  "analyticsOn = CONFIG \<lparr> system := (system CONFIG) \<lparr> enableAnalytics := True \<rparr> \<rparr>"

text \<open>
  A rendering of \<^verbatim>\<open>tau\<close> for the concrete runs below: it agrees with the host on the
  shipped value and on the three values of the adaptation table.
\<close>

definition showTau :: "rat \<Rightarrow> string" where
  "showTau q =
     (if q = 1 / 10 then ''0.1''
      else if q = 12 / 100 then ''0.12''
      else if q = 8 / 100 then ''0.08''
      else if q = 15 / 100 then ''0.15''
      else [])"

text \<open>
  The correction artifacts in the store are the cards whose title bears the prefix of the
  correction manager.  The tracked keys match them exactly if both lists are free of
  duplicates and hold the same titles; the store has no orphan if its correction
  artifacts are free of duplicates and all tracked.  \<open>detectedTitles\<close> lists the keys
  of the issue categories that an analysis reports, in the order in which
  \<^verbatim>\<open>applyCorrections\<close> looks at them.
\<close>

definition correctionTitles :: "storyCard list \<Rightarrow> string list" where
  "correctionTitles cards = filter (\<lambda>t. startsWith t CARD_PREFIX) (map title cards)"

definition trackedExactly :: "world \<Rightarrow> bool" where
  "trackedExactly w =
     (distinct (dynamicCards (state w)) \<and> distinct (correctionTitles (storyCards w))
      \<and> set (dynamicCards (state w)) = set (correctionTitles (storyCards w)))"

definition noOrphans :: "world \<Rightarrow> bool" where
  "noOrphans w =
     (distinct (correctionTitles (storyCards w))
      \<and> set (correctionTitles (storyCards w)) \<subseteq> set (dynamicCards (state w)))"

definition detectedTitles :: "analysis \<Rightarrow> string list" where
  "detectedTitles a =
     (if fatigue (composted a) \<noteq> [] then [CARD_PREFIX @ ''Variety''] else [])
     @ (if drift (composted a) \<noteq> [] then [CARD_PREFIX @ ''Grounding''] else [])
     @ (if contradictions (composted a) \<noteq> [] then [CARD_PREFIX @ ''Coherence''] else [])"

definition artifactCount :: "storyCard list \<Rightarrow> string \<Rightarrow> nat" where
  "artifactCount cards ttl = length (filter (\<lambda>c. title c = ttl) cards)"

text \<open>Two consecutive correction cycles.\<close>

definition twoCycles ::
  "bool \<Rightarrow> analysis option \<Rightarrow> analysis option \<Rightarrow> world \<Rightarrow> error + world" where
  "twoCycles accepts an1 an2 w =
     (case applyCorrections accepts an1 w of
        Inl e \<Rightarrow> Inl e
      | Inr w1 \<Rightarrow> applyCorrections accepts an2 w1)"

text \<open>Two texts for concrete cycles: one with a contradiction, one with a drift.\<close>

definition driftText :: string where
  "driftText = ''The system hums.''"

text \<open>A text has a triple if three line feeds follow each other somewhere in it.\<close>

fun hasTriple :: "string \<Rightarrow> bool" where
  "hasTriple (a # b # c # s) =
     ((a = CHR 0x0A \<and> b = CHR 0x0A \<and> c = CHR 0x0A) \<or> hasTriple (b # c # s))"
| "hasTriple s = False"

text \<open>
  The candidate that the duplicate removal tries at a length, and whether it matches:
  the \<^verbatim>\<open>suffix\<close> of the loop body and the condition of its \<^verbatim>\<open>if\<close>.
\<close>

definition duplicateCandidate :: "nat \<Rightarrow> string \<Rightarrow> string" where
  "duplicateCandidate len prior = trim (lastN len (lastN 100 prior))"

definition duplicateMatch :: "string \<Rightarrow> string \<Rightarrow> nat \<Rightarrow> bool" where
  "duplicateMatch prior txt len =
     (duplicateCandidate len prior \<noteq> [] \<and> startsWith (trim txt) (duplicateCandidate len prior))"

text \<open>
  The duplicate removal in the words of the specification: the longest suffix of the
  last 100 characters of the prior turn, tried at the lengths 50 down to 10, that is a
  prefix of the trimmed text is removed from the text.
\<close>

definition spec_removeDuplicateStart :: "string \<Rightarrow> string \<Rightarrow> string" where
  "spec_removeDuplicateStart prior txt =
     (case find (\<lambda>len. startsWith (trim txt) (lastN len (lastN 100 prior))) candidateLengths of
        None \<Rightarrow> txt
      | Some len \<Rightarrow> drop (length (lastN len (lastN 100 prior))) (trim txt))"

definition knockPrior :: string where
  "knockPrior =
     ''The visitor waited outside in the rain and started to knock knock knock knock ''"

definition knockText :: string where
  "knockText = ''knock knock knock knock!''"

definition doorTail :: string where
  "doorTail = ''she opened the door''"

definition doorText :: string where
  "doorText = ''she opened the door and walked in''"

text \<open>
  The shipped configuration with the quality threshold of the regeneration test of the
  documentation, 4.5.
\<close>

definition strictConfig :: config where
  "strictConfig = CONFIG \<lparr> bonepoke := (bonepoke CONFIG) \<lparr> qualityThreshold := 9 / 2 \<rparr> \<rparr>"

text \<open>
  The world after the library was loaded while the store accepted: the sampling card is
  in the store, as \<^verbatim>\<open>ensureCard\<close> built it.  The history of one turn whose output holds a
  contradiction.
\<close>

definition loadedWorld :: world where
  "loadedWorld =
     initialWorld
       \<lparr> storyCards :=
           [\<lparr> title = VS_CARD_TITLE, entry = generateInstruction showTau CONFIG,
              ctype = ''System'', keys = [],
              description = ''Verbalized Sampling - Diversity Enhancement'' \<rparr>] \<rparr>"

definition poorHistory :: "historyEntry list" where
  "poorHistory = [\<lparr> htype = ''ai'', htext = poorText \<rparr>]"

section \<open>Bounded retry\<close>

lemma regenThisOutput_pushHistory [simp]:
  "regenThisOutput (pushHistory an st) = regenThisOutput st"
  by (simp add: pushHistory_def Let_def split: option.splits)

lemma regenThisOutput_recordRegeneration [simp]:
  "regenThisOutput (recordRegeneration c st) = regenThisOutput st"
  by (simp add: recordRegeneration_def)

lemma regenThisOutput_recordOutput [simp]:
  "regenThisOutput (recordOutput c an st) = regenThisOutput st"
  by (simp add: recordOutput_def Let_def)

lemma analyze_Some_enabled: "analyze c t = Some a \<Longrightarrow> bp_enabled (bonepoke c)"
  by (auto simp: analyze_def split: if_splits)

lemma step_regenerate:
  assumes "poorQuality c (h, raw)" "regenThisOutput st < maxRegenAttempts (bonepoke c)"
  shows "fst (outputModifier c h st raw) = \<lparr> rtext = [], rstop = True \<rparr>"
    and "regenThisOutput (snd (outputModifier c h st raw)) = regenThisOutput st + 1"
  using assms
  by (auto simp: poorQuality_def outputModifier_def shouldRegenerate_def Let_def
      dest: analyze_Some_enabled split: option.splits)

lemma step_forced:
  assumes "regenThisOutput st \<ge> maxRegenAttempts (bonepoke c)"
  shows "\<not> rstop (fst (outputModifier c h st raw))"
    and "regenThisOutput (snd (outputModifier c h st raw)) = 0"
  using assms
  by (auto simp: outputModifier_def shouldRegenerate_def Let_def split: option.splits)

lemma run_poor:
  assumes "\<forall>a \<in> set attempts. poorQuality c a"
    and "regenThisOutput st + length attempts = maxRegenAttempts (bonepoke c) + 1"
    and "i < length attempts"
  shows "(if regenThisOutput st + i < maxRegenAttempts (bonepoke c)
          then fst (runAttempts c st attempts ! i) = \<lparr> rtext = [], rstop = True \<rparr>
             \<and> regenThisOutput (snd (runAttempts c st attempts ! i)) = regenThisOutput st + i + 1
          else \<not> rstop (fst (runAttempts c st attempts ! i))
             \<and> regenThisOutput (snd (runAttempts c st attempts ! i)) = 0)"
  using assms
proof (induction attempts arbitrary: st i)
  case Nil
  then show ?case by simp
next
  case (Cons a rest)
  obtain h raw where a: "a = (h, raw)" by (cases a)
  show ?case
  proof (cases i)
    case 0
    show ?thesis
    proof (cases "regenThisOutput st < maxRegenAttempts (bonepoke c)")
      case True
      with Cons.prems 0 a show ?thesis
        by (simp add: Let_def step_regenerate)
    next
      case False
      with Cons.prems 0 a show ?thesis
        by (simp add: Let_def step_forced)
    qed
  next
    case (Suc j)
    from Cons.prems(2) Suc Cons.prems(3)
    have lt: "regenThisOutput st < maxRegenAttempts (bonepoke c)" by simp
    let ?st' = "snd (outputModifier c h st raw)"
    have c': "regenThisOutput ?st' = regenThisOutput st + 1"
      using step_regenerate(2)[of c h raw st] Cons.prems(1) a lt by simp
    have "(if regenThisOutput ?st' + j < maxRegenAttempts (bonepoke c)
          then fst (runAttempts c ?st' rest ! j) = \<lparr> rtext = [], rstop = True \<rparr>
             \<and> regenThisOutput (snd (runAttempts c ?st' rest ! j)) = regenThisOutput ?st' + j + 1
          else \<not> rstop (fst (runAttempts c ?st' rest ! j))
             \<and> regenThisOutput (snd (runAttempts c ?st' rest ! j)) = 0)"
      using Cons.IH[of ?st' j] Cons.prems c' Suc by simp
    then show ?thesis using Suc a c' by (simp add: Let_def)
  qed
qed

text \<open>
  C1.  A turn starts with the per-turn counter at 0 and every attempt is of poor quality
  (its analysis exists and scores below the threshold).  Then each of the first
  \<open>maxRegenAttempts\<close> calls of the output script returns the retry signal and leaves the
  counter at the number of the attempt; the call number \<open>maxRegenAttempts + 1\<close> accepts
  and resets the counter to 0; the counter never exceeds \<open>maxRegenAttempts\<close>; and in any
  state whose counter has reached \<open>maxRegenAttempts\<close> the output is accepted whatever
  its score.
\<close>

theorem bounded_retry:
  assumes "regenThisOutput st = 0"
    and "length attempts = maxRegenAttempts (bonepoke c) + 1"
    and "\<forall>a \<in> set attempts. poorQuality c a"
  shows "(\<forall>i < maxRegenAttempts (bonepoke c).
            fst (runAttempts c st attempts ! i) = \<lparr> rtext = [], rstop = True \<rparr>
          \<and> regenThisOutput (snd (runAttempts c st attempts ! i)) = i + 1)
       \<and> \<not> rstop (fst (runAttempts c st attempts ! maxRegenAttempts (bonepoke c)))
       \<and> regenThisOutput (snd (runAttempts c st attempts ! maxRegenAttempts (bonepoke c))) = 0
       \<and> (\<forall>i \<le> maxRegenAttempts (bonepoke c).
            regenThisOutput (snd (runAttempts c st attempts ! i)) \<le> maxRegenAttempts (bonepoke c))
       \<and> (\<forall>st' h raw. regenThisOutput st' \<ge> maxRegenAttempts (bonepoke c)
            \<longrightarrow> \<not> rstop (fst (outputModifier c h st' raw)))"
proof -
  let ?m = "maxRegenAttempts (bonepoke c)"
  have R: "\<And>i. i < length attempts \<Longrightarrow>
       (if i < ?m
          then fst (runAttempts c st attempts ! i) = \<lparr> rtext = [], rstop = True \<rparr>
             \<and> regenThisOutput (snd (runAttempts c st attempts ! i)) = i + 1
          else \<not> rstop (fst (runAttempts c st attempts ! i))
             \<and> regenThisOutput (snd (runAttempts c st attempts ! i)) = 0)"
    using run_poor[of attempts c st] assms by simp
  have A: "\<forall>i < ?m. fst (runAttempts c st attempts ! i) = \<lparr> rtext = [], rstop = True \<rparr>
          \<and> regenThisOutput (snd (runAttempts c st attempts ! i)) = i + 1"
    using R assms(2) by (metis less_Suc_eq Suc_eq_plus1)
  have B: "\<not> rstop (fst (runAttempts c st attempts ! ?m))
       \<and> regenThisOutput (snd (runAttempts c st attempts ! ?m)) = 0"
    using R[of ?m] assms(2) by simp
  have C: "\<forall>i \<le> ?m. regenThisOutput (snd (runAttempts c st attempts ! i)) \<le> ?m"
  proof (intro allI impI)
    fix i assume "i \<le> ?m"
    then show "regenThisOutput (snd (runAttempts c st attempts ! i)) \<le> ?m"
      using R[of i] assms(2) by (cases "i < ?m") auto
  qed
  show ?thesis using A B C step_forced(1) by blast
qed

theorem bounded_retry_witness:
  "regenThisOutput emptyState = 0
   \<and> poorQuality CONFIG ([], poorText)
   \<and> map (rstop \<circ> fst)
       (runAttempts CONFIG emptyState [([], poorText), ([], poorText), ([], poorText)])
       = [True, True, False]
   \<and> \<not> rstop (fst (outputModifier CONFIG [] (emptyState \<lparr> regenThisOutput := 2 \<rparr>) poorText))"
proof -
  let ?as = "[([]::historyEntry list, poorText), ([], poorText), ([], poorText)]"
  have p: "poorQuality CONFIG ([], poorText)" by code_simp
  have h1: "regenThisOutput emptyState = 0" by (simp add: emptyState_def)
  have h2: "length ?as = maxRegenAttempts (bonepoke CONFIG) + 1"
    by (simp add: CONFIG_def)
  have h3: "\<forall>a \<in> set ?as. poorQuality CONFIG a"
    using p by simp
  have m: "maxRegenAttempts (bonepoke CONFIG) = 2" by (simp add: CONFIG_def)
  note T = bounded_retry[OF h1 h2 h3]
  from T have
    "rstop (fst (runAttempts CONFIG emptyState ?as ! 0))"
    "rstop (fst (runAttempts CONFIG emptyState ?as ! 1))"
    "\<not> rstop (fst (runAttempts CONFIG emptyState ?as ! 2))"
    unfolding m by (auto simp del: runAttempts.simps)
  then have tr: "map (rstop \<circ> fst) (runAttempts CONFIG emptyState ?as) = [True, True, False]"
    by (simp add: Let_def)
  from T have "\<not> rstop (fst (outputModifier CONFIG [] (emptyState \<lparr> regenThisOutput := 2 \<rparr>) poorText))"
    unfolding m by simp
  with p h1 tr show ?thesis by simp
qed

section \<open>Searching in strings\<close>

lemma startsWith_iff: "startsWith s p \<longleftrightarrow> (\<exists>r. s = p @ r)"
  by (induction s p rule: startsWith.induct) auto

lemma includesStr_iff: "includesStr s p \<longleftrightarrow> spec_contains s p"
proof (induction s)
  case Nil
  then show ?case by (auto simp: spec_contains_def)
next
  case (Cons c cs)
  show ?case
  proof
    assume "includesStr (c # cs) p"
    then consider "startsWith (c # cs) p" | "includesStr cs p" by auto
    then show "spec_contains (c # cs) p"
    proof cases
      case 1
      then obtain r where "c # cs = p @ r" by (auto simp: startsWith_iff)
      then have "c # cs = [] @ p @ r" by simp
      then show ?thesis unfolding spec_contains_def by blast
    next
      case 2
      then obtain u v where "cs = u @ p @ v" using Cons.IH by (auto simp: spec_contains_def)
      then have "c # cs = (c # u) @ p @ v" by simp
      then show ?thesis unfolding spec_contains_def by blast
    qed
  next
    assume "spec_contains (c # cs) p"
    then obtain u v where uv: "c # cs = u @ p @ v" by (auto simp: spec_contains_def)
    show "includesStr (c # cs) p"
    proof (cases u)
      case Nil
      with uv have "\<exists>r. c # cs = p @ r" by auto
      then have "startsWith (c # cs) p" by (simp only: startsWith_iff)
      then show ?thesis by simp
    next
      case (Cons d u')
      with uv have "cs = u' @ p @ v" by simp
      then have "includesStr cs p" using Cons.IH by (auto simp: spec_contains_def)
      then show ?thesis by simp
    qed
  qed
qed

lemma startsWithCI_iff:
  "startsWithCI s p \<longleftrightarrow> (\<exists>m r. s = m @ r \<and> map asciiLower m = map asciiLower p)"
proof (induction s p rule: startsWithCI.induct)
  case (1 s)
  then show ?case by auto
next
  case (2 p ps)
  then show ?case by auto
next
  case (3 c cs p ps)
  show ?case
  proof
    assume "startsWithCI (c # cs) (p # ps)"
    then have e: "asciiLower c = asciiLower p" and "startsWithCI cs ps" by auto
    then obtain m r where "cs = m @ r" "map asciiLower m = map asciiLower ps" using 3 by auto
    then have "c # cs = (c # m) @ r \<and> map asciiLower (c # m) = map asciiLower (p # ps)"
      using e by simp
    then show "\<exists>m r. c # cs = m @ r \<and> map asciiLower m = map asciiLower (p # ps)" by blast
  next
    assume "\<exists>m r. c # cs = m @ r \<and> map asciiLower m = map asciiLower (p # ps)"
    then obtain m r where mr: "c # cs = m @ r" "map asciiLower m = map asciiLower (p # ps)" by blast
    then obtain m' where m: "m = c # m'" by (cases m) auto
    with mr have "cs = m' @ r" "map asciiLower m' = map asciiLower ps" "asciiLower c = asciiLower p"
      by auto
    then show "startsWithCI (c # cs) (p # ps)" using 3 by auto
  qed
qed

lemma wordTestFrom_iff:
  assumes "p \<noteq> []"
  shows "wordTestFrom p b s \<longleftrightarrow>
     (\<exists>u m v. s = u @ m @ v \<and> map asciiLower m = map asciiLower p
        \<and> (if u = [] then b else \<not> isWordChar (last u)) \<and> (v = [] \<or> \<not> isWordChar (hd v)))"
proof (induction s arbitrary: b)
  case Nil
  then show ?case using assms by auto
next
  case (Cons c cs)
  have tail: "\<And>m v. (case v of [] \<Rightarrow> True | d # r \<Rightarrow> \<not> isWordChar d) = (v = [] \<or> \<not> isWordChar (hd v))"
    by (simp split: list.splits)
  show ?case
  proof
    assume "wordTestFrom p b (c # cs)"
    then consider
      (here) "b" "startsWithCI (c # cs) p"
             "(case drop (length p) (c # cs) of [] \<Rightarrow> True | d # r \<Rightarrow> \<not> isWordChar d)"
      | (later) "wordTestFrom p (\<not> isWordChar c) cs" by auto
    then show "\<exists>u m v. c # cs = u @ m @ v \<and> map asciiLower m = map asciiLower p
        \<and> (if u = [] then b else \<not> isWordChar (last u)) \<and> (v = [] \<or> \<not> isWordChar (hd v))"
    proof cases
      case here
      then obtain m r where mr: "c # cs = m @ r" "map asciiLower m = map asciiLower p"
        by (auto simp: startsWithCI_iff)
      then have "length m = length p" by (metis length_map)
      then have "drop (length p) (c # cs) = r" using mr by simp
      with here(3) have "r = [] \<or> \<not> isWordChar (hd r)" by (simp split: list.splits)
      with mr here(1) have "c # cs = [] @ m @ r \<and> map asciiLower m = map asciiLower p
        \<and> (if ([]::string) = [] then b else \<not> isWordChar (last [])) \<and> (r = [] \<or> \<not> isWordChar (hd r))"
        by simp
      then show ?thesis by blast
    next
      case later
      then obtain u m v where x: "cs = u @ m @ v" "map asciiLower m = map asciiLower p"
        "(if u = [] then \<not> isWordChar c else \<not> isWordChar (last u))" "v = [] \<or> \<not> isWordChar (hd v)"
        using Cons.IH by blast
      then have "c # cs = (c # u) @ m @ v \<and> map asciiLower m = map asciiLower p
        \<and> (if (c # u) = [] then b else \<not> isWordChar (last (c # u))) \<and> (v = [] \<or> \<not> isWordChar (hd v))"
        by auto
      then show ?thesis by blast
    qed
  next
    assume "\<exists>u m v. c # cs = u @ m @ v \<and> map asciiLower m = map asciiLower p
        \<and> (if u = [] then b else \<not> isWordChar (last u)) \<and> (v = [] \<or> \<not> isWordChar (hd v))"
    then obtain u m v where x: "c # cs = u @ m @ v" "map asciiLower m = map asciiLower p"
        "(if u = [] then b else \<not> isWordChar (last u))" "v = [] \<or> \<not> isWordChar (hd v)"
      by blast
    show "wordTestFrom p b (c # cs)"
    proof (cases u)
      case Nil
      have "length m = length p" using x(2) by (metis length_map)
      then have d: "drop (length p) (c # cs) = v" using x(1) Nil by simp
      have "startsWithCI (c # cs) p" using x(1,2) Nil by (auto simp: startsWithCI_iff)
      moreover have "b" using x(3) Nil by simp
      moreover have "(case drop (length p) (c # cs) of [] \<Rightarrow> True | d # r \<Rightarrow> \<not> isWordChar d)"
        using x(4) d by (auto split: list.splits)
      ultimately show ?thesis by simp
    next
      case (Cons d u')
      with x(1) have cs: "cs = u' @ m @ v" and dc: "d = c" by auto
      have "(if u' = [] then \<not> isWordChar c else \<not> isWordChar (last u'))"
        using x(3) Cons dc by auto
      then have "wordTestFrom p (\<not> isWordChar c) cs"
        using Cons.IH[of "\<not> isWordChar c"] cs x(2,4) by blast
      then show ?thesis by simp
    qed
  qed
qed

lemma wordTest_iff:
  assumes "p \<noteq> []"
  shows "wordTest p s \<longleftrightarrow> spec_wholeWord p s"
proof -
  have e: "\<And>u. (if u = [] then True else \<not> isWordChar (last u)) = (u = [] \<or> \<not> isWordChar (last u))"
    by simp
  show ?thesis
    unfolding wordTest_def spec_wholeWord_def wordTestFrom_iff[OF assms] e ..
qed

section \<open>The scorer\<close>

lemma quote_contains: "includesStr s [q] \<longleftrightarrow> q \<in> set s"
proof -
  have "spec_contains s [q] \<longleftrightarrow> q \<in> set s"
    unfolding spec_contains_def
    by (metis append_Cons append_Nil in_set_conv_decomp)
  then show ?thesis by (simp add: includesStr_iff)
qed

lemma list_ex_includes:
  "list_ex (\<lambda>e. includesStr s e) ws \<longleftrightarrow> (\<exists>e \<in> set ws. spec_contains s e)"
  by (simp add: list_ex_iff includesStr_iff)

lemma scoreOutput_rules:
  "scoreOutput c =
     [(''Emotional Strength'',
         if (\<exists>e \<in> set [''felt'', ''cried'', ''laughed'', ''trembled'', ''ache''].
               spec_contains (toLowerCase (fragment c)) e) then 4 else 2),
      (''Story Flow'', if contradictions c \<noteq> [] \<or> drift c \<noteq> [] then 1 else 5),
      (''Character Clarity'',
         if (\<exists>p \<in> set [''he'', ''she'', ''i'', ''you'']. spec_wholeWord p (fragment c))
         then 4 else 2),
      (''Dialogue Weight'',
         if CHR 0x22 \<in> set (fragment c) \<or> spec_wholeWord ''said'' (fragment c) then 4 else 2),
      (''Word Variety'', if fatigue c \<noteq> [] then 1 else 5)]"
proof -
  have w: "\<And>p. p \<in> set [''he'', ''she'', ''i'', ''you'', ''said''] \<Longrightarrow> wordTest p (fragment c) = spec_wholeWord p (fragment c)"
    by (rule wordTest_iff) auto
  have ch: "list_ex (\<lambda>p. wordTest p (fragment c)) [''he'', ''she'', ''i'', ''you'']
      \<longleftrightarrow> (\<exists>p \<in> set [''he'', ''she'', ''i'', ''you'']. spec_wholeWord p (fragment c))"
    using w by (simp add: list_ex_iff)
  have sd: "wordTest ''said'' (fragment c) = spec_wholeWord ''said'' (fragment c)"
    using w by simp
  show ?thesis
    unfolding scoreOutput_def Let_def list_ex_includes ch sd quote_contains
    by simp
qed

lemma foldl_plus_sum_list: "foldl (+) (n::nat) xs = n + sum_list xs"
  by (induction xs arbitrary: n) auto

text \<open>
  C7.  For every analysis record the scorer yields the five dimensions in their fixed
  order, each by its rule: Emotional Strength is 4 if a word of the emotion vocabulary
  is contained in the lower-cased text and 2 otherwise; Story Flow is 1 if a
  contradiction or a drift was detected and 5 otherwise; Character Clarity is 4 if one of
  the pronouns occurs as a whole word and 2 otherwise; Dialogue Weight is 4 if the text
  holds a double quote or the whole word \<^verbatim>\<open>said\<close> and 2 otherwise; Word Variety is 1 if a
  fatigue was detected and 5 otherwise.  Every value lies in \<open>{1, 2, 4, 5}\<close> and none is 3.
  The record that \<^verbatim>\<open>analyze\<close> returns carries these scores, their arithmetic mean as the
  aggregate, and the label given by the bands at 4, 3 and 2.
\<close>

theorem scorer_rules:
  "scoreOutput c =
     [(''Emotional Strength'',
         if (\<exists>e \<in> set [''felt'', ''cried'', ''laughed'', ''trembled'', ''ache''].
               spec_contains (toLowerCase (fragment c)) e) then 4 else 2),
      (''Story Flow'', if contradictions c \<noteq> [] \<or> drift c \<noteq> [] then 1 else 5),
      (''Character Clarity'',
         if (\<exists>p \<in> set [''he'', ''she'', ''i'', ''you'']. spec_wholeWord p (fragment c))
         then 4 else 2),
      (''Dialogue Weight'',
         if CHR 0x22 \<in> set (fragment c) \<or> spec_wholeWord ''said'' (fragment c) then 4 else 2),
      (''Word Variety'', if fatigue c \<noteq> [] then 1 else 5)]
   \<and> (\<forall>e \<in> set (scoreOutput c). snd e \<in> {1, 2, 4, 5} \<and> snd e \<noteq> 3)
   \<and> (analyze k frag = Some a \<longrightarrow>
        fragment (composted a) = frag
      \<and> scores a = scoreOutput (composted a)
      \<and> avgScore a = of_nat (sum_list (map snd (scores a))) / 5
      \<and> quality a = (if avgScore a \<ge> 4 then ''excellent''
                      else if avgScore a \<ge> 3 then ''good''
                      else if avgScore a \<ge> 2 then ''fair'' else ''poor''))"
proof -
  have A: "\<forall>e \<in> set (scoreOutput c). snd e \<in> {1, 2, 4, 5} \<and> snd e \<noteq> 3"
    unfolding scoreOutput_rules by simp
  have len: "\<And>c'. length (scoreOutput c') = 5" by (simp add: scoreOutput_def Let_def)
  have fl: "\<And>xs::nat list. foldl (+) 0 xs = sum_list xs"
    using foldl_plus_sum_list[of 0] by simp
  have B: "analyze k frag = Some a \<longrightarrow>
        fragment (composted a) = frag
      \<and> scores a = scoreOutput (composted a)
      \<and> avgScore a = of_nat (sum_list (map snd (scores a))) / 5
      \<and> quality a = (if avgScore a \<ge> 4 then ''excellent''
                      else if avgScore a \<ge> 3 then ''good''
                      else if avgScore a \<ge> 2 then ''fair'' else ''poor'')"
    by (auto simp: analyze_def Let_def len fl split: if_splits)
  show ?thesis using scoreOutput_rules A B by blast
qed

theorem scorer_rules_witness:
  "map_option scores (analyze CONFIG '' She said hi.'')
     = Some [(''Emotional Strength'', 2), (''Story Flow'', 5), (''Character Clarity'', 4),
             (''Dialogue Weight'', 4), (''Word Variety'', 5)]
   \<and> map_option avgScore (analyze CONFIG '' She said hi.'') = Some 4
   \<and> map_option quality (analyze CONFIG '' She said hi.'') = Some ''excellent''"
proof -
  have "analyze CONFIG '' She said hi.'' \<noteq> None"
    by (simp add: analyze_def CONFIG_def Let_def)
  then obtain a where a: "analyze CONFIG '' She said hi.'' = Some a"
    by blast
  have c: "composted a = \<lparr> fragment = '' She said hi.'', contradictions = [], fatigue = [], drift = [], marm = ''MARM: suppressed'' \<rparr>"
  proof -
    have "map_option composted (analyze CONFIG '' She said hi.'') = Some \<lparr> fragment = '' She said hi.'', contradictions = [], fatigue = [], drift = [], marm = ''MARM: suppressed'' \<rparr>"
      by code_simp
    then show ?thesis using a by simp
  qed
  have s: "scoreOutput (composted a) = [(''Emotional Strength'', 2), (''Story Flow'', 5), (''Character Clarity'', 4),
             (''Dialogue Weight'', 4), (''Word Variety'', 5)]"
    unfolding c by code_simp
  note T = scorer_rules[of "composted a" CONFIG "'' She said hi.''" a]
  from T a have s1: "scores a = scoreOutput (composted a)" by blast
  from T a have s2: "avgScore a = of_nat (sum_list (map snd (scores a))) / 5" by blast
  from T a have s3: "quality a = (if avgScore a \<ge> 4 then ''excellent''
                      else if avgScore a \<ge> 3 then ''good''
                      else if avgScore a \<ge> 2 then ''fair'' else ''poor'')" by blast
  have av: "avgScore a = 4" using s2 s1 s by simp
  show ?thesis using a s1 s av s3 by simp
qed

section \<open>The analysis history\<close>

lemma lastN_short: "length xs \<le> n \<Longrightarrow> lastN n xs = xs"
  by (simp add: lastN_def)

lemma length_lastN: "length (lastN n xs) = min n (length xs)"
  by (simp add: lastN_def)

lemma bonepokeHistory_pushHistory:
  "bonepokeHistory (pushHistory an st) =
     (case an of None \<Rightarrow> bonepokeHistory st | Some a \<Rightarrow> lastN 20 (bonepokeHistory st @ [a]))"
  by (auto simp: pushHistory_def Let_def lastN_short split: option.splits)

lemma bonepokeHistory_recordRegeneration [simp]:
  "bonepokeHistory (recordRegeneration c st) = bonepokeHistory st"
  by (simp add: recordRegeneration_def)

lemma bonepokeHistory_recordOutput [simp]:
  "bonepokeHistory (recordOutput c an st) = bonepokeHistory st"
  by (simp add: recordOutput_def Let_def)

lemma analyze_disabled: "\<not> bp_enabled (bonepoke c) \<Longrightarrow> analyze c t = None"
  by (simp add: analyze_def)

lemma bonepokeHistory_outputModifier:
  "bonepokeHistory (snd (outputModifier c h st raw)) =
     (case analyze c (sanitize h raw) of
        None \<Rightarrow> bonepokeHistory st
      | Some a \<Rightarrow> lastN 20 (bonepokeHistory st @ [a]))"
  by (cases "bp_enabled (bonepoke c)")
     (simp_all add: outputModifier_def Let_def bonepokeHistory_pushHistory analyze_disabled)

lemma retry_text_empty:
  "rstop (fst (outputModifier c h st raw)) \<Longrightarrow> rtext (fst (outputModifier c h st raw)) = []"
  by (auto simp: outputModifier_def Let_def split: if_splits)

text \<open>
  C9, as stated, fails.  Under the shipped configuration the text \<^verbatim>\<open>It is not still.\<close>
  scores 2.4 and is sent back for regeneration, yet the history, empty before the call,
  holds its analysis record afterwards.
\<close>

theorem history_push_counterexample:
  "fst (outputModifier CONFIG [] emptyState poorText) = \<lparr> rtext = [], rstop = True \<rparr>
   \<and> bonepokeHistory emptyState = []
   \<and> map Some (bonepokeHistory (snd (outputModifier CONFIG [] emptyState poorText)))
       = [analyze CONFIG (sanitize [] poorText)]"
  by code_simp

text \<open>
  C9, amended.  The analysis record of every analysed output is pushed onto the history
  before the decision and whatever the decision is: after a call the history is the old
  one followed by the record, cut to its last 20 entries, or the old one when there is no
  analysis.  A retry signal carries the empty text, and the history never grows beyond 20
  entries.
\<close>

theorem history_push_always:
  "bonepokeHistory (snd (outputModifier c h st raw)) =
     (case analyze c (sanitize h raw) of
        None \<Rightarrow> bonepokeHistory st
      | Some a \<Rightarrow> lastN 20 (bonepokeHistory st @ [a]))
   \<and> (rstop (fst (outputModifier c h st raw)) \<longrightarrow> rtext (fst (outputModifier c h st raw)) = [])
   \<and> length (bonepokeHistory (snd (outputModifier c h st raw))) \<le> max 20 (length (bonepokeHistory st))"
proof -
  have "length (bonepokeHistory (snd (outputModifier c h st raw))) \<le> max 20 (length (bonepokeHistory st))"
    unfolding bonepokeHistory_outputModifier
    by (simp add: length_lastN min_def max_def split: option.splits)
  then show ?thesis using bonepokeHistory_outputModifier retry_text_empty by blast
qed

text \<open>
  C9, amended, at the regenerated text of the counterexample.
\<close>

theorem history_push_always_witness:
  "rstop (fst (outputModifier CONFIG [] emptyState poorText))
   \<and> rtext (fst (outputModifier CONFIG [] emptyState poorText)) = []
   \<and> length (bonepokeHistory (snd (outputModifier CONFIG [] emptyState poorText))) = 1"
proof -
  have s: "rstop (fst (outputModifier CONFIG [] emptyState poorText))" by code_simp
  have a: "analyze CONFIG (sanitize [] poorText) \<noteq> None" by code_simp
  have e: "bonepokeHistory emptyState = []" by (simp add: emptyState_def)
  note T = history_push_always[of CONFIG "[]" emptyState poorText]
  from T s have t: "rtext (fst (outputModifier CONFIG [] emptyState poorText)) = []" by blast
  from T a e have "length (bonepokeHistory (snd (outputModifier CONFIG [] emptyState poorText))) = 1"
    by (auto simp: lastN_def)
  with s t show ?thesis by simp
qed

section \<open>Regeneration counters\<close>

lemma regenCount_pushHistory [simp]: "regenCount (pushHistory an st) = regenCount st"
  by (simp add: pushHistory_def Let_def split: option.splits)

lemma metrics_pushHistory [simp]: "metrics (pushHistory an st) = metrics st"
  by (simp add: pushHistory_def Let_def split: option.splits)

lemma regenCount_recordOutput [simp]: "regenCount (recordOutput c an st) = regenCount st"
  by (simp add: recordOutput_def Let_def)

lemma regenerations_recordOutput [simp]:
  "regenerations (metrics (recordOutput c an st)) = regenerations (metrics st)"
  by (simp add: recordOutput_def Let_def split: option.splits)

lemma outputModifier_regenerate:
  assumes "shouldRegenerate c (pushHistory (if bp_enabled (bonepoke c) then analyze c (sanitize h raw) else None) st)
             (if bp_enabled (bonepoke c) then analyze c (sanitize h raw) else None)"
  shows "fst (outputModifier c h st raw) = \<lparr> rtext = [], rstop = True \<rparr>"
    and "snd (outputModifier c h st raw) =
           recordRegeneration c
             ((pushHistory (if bp_enabled (bonepoke c) then analyze c (sanitize h raw) else None) st)
                \<lparr> regenCount := regenCount st + 1, regenThisOutput := regenThisOutput st + 1 \<rparr>)"
  using assms by (simp_all add: outputModifier_def Let_def)

lemma outputModifier_accept:
  assumes "\<not> shouldRegenerate c (pushHistory (if bp_enabled (bonepoke c) then analyze c (sanitize h raw) else None) st)
             (if bp_enabled (bonepoke c) then analyze c (sanitize h raw) else None)"
  shows "\<not> rstop (fst (outputModifier c h st raw))"
    and "snd (outputModifier c h st raw) =
           recordOutput c (if bp_enabled (bonepoke c) then analyze c (sanitize h raw) else None)
             ((pushHistory (if bp_enabled (bonepoke c) then analyze c (sanitize h raw) else None) st)
                \<lparr> regenThisOutput := 0 \<rparr>)"
  using assms by (simp_all add: outputModifier_def Let_def)

lemma step_counters:
  "regenCount (snd (outputModifier c h st raw)) =
     regenCount st + (if rstop (fst (outputModifier c h st raw)) then 1 else 0)"
  "regenerations (metrics (snd (outputModifier c h st raw))) =
     regenerations (metrics st)
       + (if rstop (fst (outputModifier c h st raw)) \<and> enableAnalytics (system c) then 1 else 0)"
  "rstop (fst (outputModifier c h st raw)) \<Longrightarrow>
     regenThisOutput (snd (outputModifier c h st raw)) = regenThisOutput st + 1"
proof -
  let ?an = "if bp_enabled (bonepoke c) then analyze c (sanitize h raw) else None"
  let ?g = "shouldRegenerate c (pushHistory ?an st) ?an"
  show "regenCount (snd (outputModifier c h st raw)) =
     regenCount st + (if rstop (fst (outputModifier c h st raw)) then 1 else 0)"
  proof (cases ?g)
    case True
    then show ?thesis
      by (simp add: outputModifier_regenerate recordRegeneration_def)
  next
    case False
    then show ?thesis
      by (simp add: outputModifier_accept)
  qed
  show "regenerations (metrics (snd (outputModifier c h st raw))) =
     regenerations (metrics st)
       + (if rstop (fst (outputModifier c h st raw)) \<and> enableAnalytics (system c) then 1 else 0)"
  proof (cases ?g)
    case True
    then show ?thesis
      by (simp add: outputModifier_regenerate recordRegeneration_def)
  next
    case False
    then show ?thesis
      by (simp add: outputModifier_accept)
  qed
  show "rstop (fst (outputModifier c h st raw)) \<Longrightarrow>
     regenThisOutput (snd (outputModifier c h st raw)) = regenThisOutput st + 1"
  proof (cases ?g)
    case True
    then show ?thesis
      by (simp add: outputModifier_regenerate)
  next
    case False
    assume "rstop (fst (outputModifier c h st raw))"
    with False show ?thesis
      by (simp add: outputModifier_accept)
  qed
qed

lemma run_counters:
  "regenCount (finalState st (runAttempts c st attempts))
     = regenCount st + retries (runAttempts c st attempts)
   \<and> regenerations (metrics (finalState st (runAttempts c st attempts)))
     = regenerations (metrics st)
       + (if enableAnalytics (system c) then retries (runAttempts c st attempts) else 0)"
proof (induction attempts arbitrary: st)
  case Nil
  then show ?case by (simp add: finalState_def retries_def)
next
  case (Cons a rest)
  let ?r = "outputModifier c (fst a) st (snd a)"
  have f: "finalState st (runAttempts c st (a # rest)) = finalState (snd ?r) (runAttempts c (snd ?r) rest)"
    by (simp add: finalState_def Let_def)
  have n: "retries (runAttempts c st (a # rest))
      = (if rstop (fst ?r) then 1 else 0) + retries (runAttempts c (snd ?r) rest)"
    by (simp add: retries_def Let_def)
  show ?case
    unfolding f n using Cons.IH[of "snd ?r"] step_counters(1,2)[of c "fst a" st "snd a"]
    by simp
qed

text \<open>
  C10, as stated, fails.  Under the shipped configuration, where analytics is off, one
  regeneration has taken place and the total of regenerations in the summary is still 0.
\<close>

theorem summary_counterexample:
  "retries (runAttempts CONFIG (initState emptyState) [([], poorText)]) = 1
   \<and> sum_regenerations (getSummary (initState emptyState)) = 0
   \<and> sum_regenerations
        (getSummary (finalState (initState emptyState)
                       (runAttempts CONFIG (initState emptyState) [([], poorText)]))) = 0"
  by code_simp

text \<open>
  C10, amended.  Every retry signal increments the per-turn counter and the cumulative
  counter \<^verbatim>\<open>state.regenCount\<close>, so after a series of calls \<^verbatim>\<open>state.regenCount\<close> has grown by the
  number of retries.  The metric behind the summary is guarded by the analytics flag: the
  total of regenerations in the summary has grown by the number of retries when
  analytics is on, and has not changed when it is off.
\<close>

theorem regeneration_counters:
  "(rstop (fst (outputModifier c h st raw)) \<longrightarrow>
       regenThisOutput (snd (outputModifier c h st raw)) = regenThisOutput st + 1
     \<and> regenCount (snd (outputModifier c h st raw)) = regenCount st + 1)
   \<and> regenCount (finalState st (runAttempts c st attempts))
       = regenCount st + retries (runAttempts c st attempts)
   \<and> sum_regenerations (getSummary (finalState st (runAttempts c st attempts)))
       = sum_regenerations (getSummary st)
         + (if enableAnalytics (system c) then retries (runAttempts c st attempts) else 0)"
  using run_counters[of st c attempts] step_counters(1,3)[of c h st raw]
  by (simp add: getSummary_def Let_def)

text \<open>
  C10, amended, with analytics on: two regenerations, and the summary counts two.
\<close>

theorem regeneration_counters_witness:
  "rstop (fst (outputModifier analyticsOn [] (initState emptyState) poorText))
   \<and> regenThisOutput (snd (outputModifier analyticsOn [] (initState emptyState) poorText)) = 1
   \<and> retries (runAttempts analyticsOn (initState emptyState) [([], poorText), ([], poorText)]) = 2
   \<and> sum_regenerations
        (getSummary (finalState (initState emptyState)
           (runAttempts analyticsOn (initState emptyState) [([], poorText), ([], poorText)]))) = 2"
proof -
  let ?st = "initState emptyState"
  have s: "rstop (fst (outputModifier analyticsOn [] ?st poorText))" by code_simp
  have n: "retries (runAttempts analyticsOn ?st [([], poorText), ([], poorText)]) = 2" by code_simp
  have z: "regenThisOutput ?st = 0" "sum_regenerations (getSummary ?st) = 0"
    "enableAnalytics (system analyticsOn)" by code_simp+
  note T = regeneration_counters[of analyticsOn "[]" ?st poorText "[([], poorText), ([], poorText)]"]
  from T s z n show ?thesis by simp
qed

section \<open>The configuration under the context script\<close>

text \<open>
  C2.  The context script assigns the adapted parameters to the configuration object and
  never assigns the saved originals back.  With the adaptive mode on and a context that
  holds the word \<^verbatim>\<open>said\<close>, the configuration starts the call with \<open>k = 5\<close> and
  \<open>tau = 0.1\<close> and ends it with \<open>k = 7\<close> and \<open>tau = 0.12\<close>.
\<close>

theorem config_mutated_by_context:
  "vs_k (vs (cfg adaptiveWorld)) = 5 \<and> vs_tau (vs (cfg adaptiveWorld)) = 1 / 10
   \<and> map_sum id (\<lambda>r. (vs_k (vs (cfg (snd r))), vs_tau (vs (cfg (snd r)))))
        (contextModifier True showTau [] adaptiveWorld ''He said hi'')
      = Inr (7, 12 / 100)"
  by code_simp

section \<open>Empty input\<close>

lemma dedupLoop_empty: "dedupLoop chunk lens [] = []"
  by (induction lens) (auto simp: Let_def trim_def trimEnd_def trimStart_def)

lemma cleanOutput_empty: "cleanOutput [] = []"
  by code_simp

lemma sanitize_empty: "sanitize h [] = '' ''"
  by (simp add: sanitize_def cleanOutput_empty removeDuplicateStart_def dedupLoop_empty
      split: option.splits)

lemma analyze_space:
  "bp_enabled (bonepoke c) \<Longrightarrow> map_option avgScore (analyze c '' '') = Some (16 / 5)"
  "analyze c '' '' = Some a \<Longrightarrow> fragment (composted a) = '' ''"
   apply (simp add: analyze_def Let_def scoreOutput_def detectContradictions_def detectDrift_def
      traceFatigue_def fatigueTokens_def toLowerCase_def toLowerChar_def isWordChar_def isWhiteSpace_def
      asciiUpper_def asciiLowerLetters_def latinUpper_def latinLower_def ownEntries_def twoQuotes_def
      trim_def trimStart_def trimEnd_def wordTest_def asciiLower_def)
  apply (auto simp add: analyze_def Let_def split: if_splits)
  done


lemma sanitize_starts_space: "\<exists>t. sanitize h raw = CHR '' '' # t"
proof -
  have "\<And>txt. startsWith txt '' '' \<Longrightarrow> \<exists>t. txt = CHR '' '' # t"
    by (auto simp: startsWith_iff)
  then show ?thesis by (auto simp: sanitize_def Let_def)
qed

lemma outputModifier_empty:
  "fst (outputModifier c h st []) =
     (if bp_enabled (bonepoke c) \<and> regenThisOutput st < maxRegenAttempts (bonepoke c)
         \<and> 16 / 5 < qualityThreshold (bonepoke c)
      then \<lparr> rtext = [], rstop = True \<rparr> else \<lparr> rtext = '' '', rstop = False \<rparr>)"
proof (cases "bp_enabled (bonepoke c)")
  case True
  then obtain a where a: "analyze c '' '' = Some a" "avgScore a = 16 / 5"
    using analyze_space(1)[of c] by auto
  have t: "trim '' '' = []" by (simp add: trim_def trimStart_def trimEnd_def isWhiteSpace_def)
  show ?thesis using True a t
    by (simp add: outputModifier_def sanitize_empty shouldRegenerate_def Let_def not_le)
next
  case False
  have t: "trim '' '' = []" by (simp add: trim_def trimStart_def trimEnd_def isWhiteSpace_def)
  show ?thesis using False t
    by (simp add: outputModifier_def sanitize_empty shouldRegenerate_def Let_def)
qed

lemma lastBonepokeScore_outputModifier:
  "lastBonepokeScore (snd (outputModifier c h st raw)) =
     (case analyze c (sanitize h raw) of
        None \<Rightarrow> lastBonepokeScore st
      | Some a \<Rightarrow> Some (avgScore a))"
proof -
  let ?an = "if bp_enabled (bonepoke c) then analyze c (sanitize h raw) else None"
  have e: "?an = analyze c (sanitize h raw)" by (simp add: analyze_disabled)
  have p: "lastBonepokeScore (pushHistory ?an st) =
     (case ?an of None \<Rightarrow> lastBonepokeScore st | Some a \<Rightarrow> Some (avgScore a))"
    by (simp add: pushHistory_def Let_def split: option.splits)
  show ?thesis
  proof (cases "shouldRegenerate c (pushHistory ?an st) ?an")
    case True
    then show ?thesis using p e
      by (simp add: outputModifier_regenerate recordRegeneration_def)
  next
    case False
    then show ?thesis using p e
      by (simp add: outputModifier_accept recordOutput_def Let_def)
  qed
qed

text \<open>
  C8, as stated, fails.  With the quality threshold 4.5 the placeholder of the empty raw
  input scores 3.2, below the threshold, and the first call of the output script returns
  the retry signal with the empty text, not the single space.
\<close>

theorem empty_input_counterexample:
  "qualityThreshold (bonepoke strictConfig) = 9 / 2
   \<and> regenThisOutput emptyState = 0
   \<and> fst (outputModifier strictConfig [] emptyState []) = \<lparr> rtext = [], rstop = True \<rparr>"
  by code_simp

text \<open>
  C8, amended.  For the empty raw input the sanitizer returns the single space, whatever
  the history.  When the analysis is on, the output script analyses the single space,
  never the empty text: the record it pushes onto the history has the single space as
  its text and the score 3.2, which is also the last score it stores; when the analysis
  is off nothing is pushed.  The result is the single space as the final text, unless the
  analysis is on, attempts remain and the quality threshold exceeds 3.2: then it is the
  retry signal with the empty text.
\<close>

theorem empty_input_outcome:
  "sanitize h [] = '' ''
   \<and> fst (outputModifier c h st []) =
       (if bp_enabled (bonepoke c) \<and> regenThisOutput st < maxRegenAttempts (bonepoke c)
           \<and> 16 / 5 < qualityThreshold (bonepoke c)
        then \<lparr> rtext = [], rstop = True \<rparr> else \<lparr> rtext = '' '', rstop = False \<rparr>)
   \<and> (bp_enabled (bonepoke c) \<longrightarrow>
        (\<exists>a. analyze c '' '' = Some a \<and> fragment (composted a) = '' '' \<and> avgScore a = 16 / 5
           \<and> bonepokeHistory (snd (outputModifier c h st [])) = lastN 20 (bonepokeHistory st @ [a])
           \<and> lastBonepokeScore (snd (outputModifier c h st [])) = Some (16 / 5)))
   \<and> (\<not> bp_enabled (bonepoke c) \<longrightarrow>
        bonepokeHistory (snd (outputModifier c h st [])) = bonepokeHistory st)"
proof -
  have 3: "bp_enabled (bonepoke c) \<longrightarrow>
        (\<exists>a. analyze c '' '' = Some a \<and> fragment (composted a) = '' '' \<and> avgScore a = 16 / 5
           \<and> bonepokeHistory (snd (outputModifier c h st [])) = lastN 20 (bonepokeHistory st @ [a])
           \<and> lastBonepokeScore (snd (outputModifier c h st [])) = Some (16 / 5))"
  proof
    assume en: "bp_enabled (bonepoke c)"
    then obtain a where a: "analyze c '' '' = Some a" "avgScore a = 16 / 5"
      using analyze_space(1)[of c] by auto
    have f: "fragment (composted a) = '' ''" using analyze_space(2)[OF a(1)] .
    have hst: "bonepokeHistory (snd (outputModifier c h st [])) = lastN 20 (bonepokeHistory st @ [a])"
      by (simp add: bonepokeHistory_outputModifier sanitize_empty a(1))
    have sc: "lastBonepokeScore (snd (outputModifier c h st [])) = Some (16 / 5)"
      by (simp add: lastBonepokeScore_outputModifier sanitize_empty a)
    from a f hst sc
    show "\<exists>a. analyze c '' '' = Some a \<and> fragment (composted a) = '' '' \<and> avgScore a = 16 / 5
           \<and> bonepokeHistory (snd (outputModifier c h st [])) = lastN 20 (bonepokeHistory st @ [a])
           \<and> lastBonepokeScore (snd (outputModifier c h st [])) = Some (16 / 5)"
      by blast
  qed
  have 4: "\<not> bp_enabled (bonepoke c) \<longrightarrow>
        bonepokeHistory (snd (outputModifier c h st [])) = bonepokeHistory st"
    by (simp add: bonepokeHistory_outputModifier analyze_disabled)
  show ?thesis using sanitize_empty[of h] outputModifier_empty[of c h st] 3 4 by blast
qed

text \<open>
  C8, amended, under the shipped configuration and with the analysis switched off.
\<close>

theorem empty_input_outcome_witness:
  "bp_enabled (bonepoke CONFIG)
   \<and> sanitize [] [] = '' ''
   \<and> fst (outputModifier CONFIG [] emptyState []) = \<lparr> rtext = '' '', rstop = False \<rparr>
   \<and> map (fragment \<circ> composted) (bonepokeHistory (snd (outputModifier CONFIG [] emptyState [])))
       = ['' '']
   \<and> lastBonepokeScore (snd (outputModifier CONFIG [] emptyState [])) = Some (16 / 5)
   \<and> \<not> bp_enabled (bonepoke (CONFIG \<lparr> bonepoke := (bonepoke CONFIG) \<lparr> bp_enabled := False \<rparr> \<rparr>))
   \<and> bonepokeHistory (snd (outputModifier
         (CONFIG \<lparr> bonepoke := (bonepoke CONFIG) \<lparr> bp_enabled := False \<rparr> \<rparr>) [] emptyState [])) = []"
proof -
  let ?off = "CONFIG \<lparr> bonepoke := (bonepoke CONFIG) \<lparr> bp_enabled := False \<rparr> \<rparr>"
  have en: "bp_enabled (bonepoke CONFIG)" by (simp add: CONFIG_def)
  have off: "\<not> bp_enabled (bonepoke ?off)" by simp
  have e: "bonepokeHistory emptyState = []" by (simp add: emptyState_def)
  have q: "\<not> (16 / 5 < qualityThreshold (bonepoke CONFIG))" by (simp add: CONFIG_def)
  note T = empty_input_outcome[of "[]" CONFIG emptyState]
  note U = empty_input_outcome[of "[]" ?off emptyState]
  from T have s: "sanitize [] [] = '' ''" by blast
  from T q have r: "fst (outputModifier CONFIG [] emptyState []) = \<lparr> rtext = '' '', rstop = False \<rparr>"
    by simp
  from T en obtain a where a: "fragment (composted a) = '' ''"
    "bonepokeHistory (snd (outputModifier CONFIG [] emptyState [])) = lastN 20 (bonepokeHistory emptyState @ [a])"
    "lastBonepokeScore (snd (outputModifier CONFIG [] emptyState [])) = Some (16 / 5)" by blast
  have hs: "map (fragment \<circ> composted) (bonepokeHistory (snd (outputModifier CONFIG [] emptyState []))) = ['' '']"
    using a(1,2) e by (simp add: lastN_def)
  from U off e have u: "bonepokeHistory (snd (outputModifier ?off [] emptyState [])) = []" by simp
  from en s r hs a(3) off u show ?thesis by simp
qed

section \<open>Entry points and the card store\<close>

lemma findIndex_None: "findIndex P xs = None \<longleftrightarrow> (\<forall>x \<in> set xs. \<not> P x)"
  by (induction xs) auto

lemma buildCard_accepts: "\<exists>cs. buildCard True t e ty k d i cards = Inr cs"
proof -
  have "findIndex (\<lambda>c. title c = ''%TEMP%'') (addStoryCard True ''%TEMP%'' cards) \<noteq> None"
    by (simp add: findIndex_None addStoryCard_def)
  then show ?thesis
    by (auto simp: buildCard_def Let_def)
qed

lemma buildCard_refused:
  assumes "\<forall>c \<in> set cards. title c \<noteq> ''%TEMP%''"
  shows "buildCard False t e ty k d i cards = Inl (Error ''Failed to create story card'')"
proof -
  have "findIndex (\<lambda>c. title c = ''%TEMP%'') (addStoryCard False ''%TEMP%'' cards) = None"
    using assms by (simp add: findIndex_None addStoryCard_def)
  then show ?thesis by (simp add: buildCard_def Let_def)
qed

lemma removeCard_absent:
  assumes "\<forall>c \<in> set cards. title c \<noteq> t"
  shows "removeCard t cards = (cards, False)"
proof -
  have "findIndex (\<lambda>c. title c = t) cards = None" using assms by (simp add: findIndex_None)
  then show ?thesis by (simp add: removeCard_def)
qed

lemma issueCard_accepts: "\<exists>w'. issueCard True t e d w = Inr w'"
proof -
  obtain cs where "buildCard True t e ''guidance'' [] d 0 (fst (removeCard t (storyCards w))) = Inr cs"
    using buildCard_accepts by blast
  then show ?thesis by (simp add: issueCard_def Let_def)
qed

lemma correctFatigue_accepts: "\<exists>w'. correctFatigue True f w = Inr w'"
  unfolding correctFatigue_def Let_def by (rule issueCard_accepts)

lemma correctDrift_accepts: "\<exists>w'. correctDrift True w = Inr w'"
  unfolding correctDrift_def by (rule issueCard_accepts)

lemma correctContradictions_accepts: "\<exists>w'. correctContradictions True w = Inr w'"
  unfolding correctContradictions_def by (rule issueCard_accepts)

lemma applyCorrections_accepts: "\<exists>w'. applyCorrections True an w = Inr w'"
proof (cases an)
  case None
  then show ?thesis by (simp add: applyCorrections_def)
next
  case (Some a)
  show ?thesis
  proof (cases "enableDynamicCorrection (bonepoke (cfg w))")
    case False
    with Some show ?thesis by (simp add: applyCorrections_def)
  next
    case True
    let ?c = "composted a"
    have "\<exists>w1. (if length (fatigue ?c) > 0 then correctFatigue True (fatigue ?c) (cleanup w)
                      else Inr (cleanup w)) = Inr w1"
      by (simp add: correctFatigue_accepts)
    then obtain w1 where w1: "(if length (fatigue ?c) > 0 then correctFatigue True (fatigue ?c) (cleanup w)
                      else Inr (cleanup w)) = Inr w1" by blast
    have "\<exists>w2. (if length (drift ?c) > 0 then correctDrift True w1 else Inr w1) = Inr w2"
      by (simp add: correctDrift_accepts)
    then obtain w2 where w2: "(if length (drift ?c) > 0 then correctDrift True w1 else Inr w1) = Inr w2"
      by blast
    have w3: "\<exists>w3. (if length (contradictions ?c) > 0 then correctContradictions True w2
                          else Inr w2) = Inr w3"
      by (simp add: correctContradictions_accepts)
    show ?thesis
      unfolding applyCorrections_def Some option.case Let_def using True w1 w2 w3
      by simp
  qed
qed

lemma ensureCard_accepts: "\<exists>w'. ensureCard True render w = Inr w'"
proof (cases "find (\<lambda>c. title c = VS_CARD_TITLE) (storyCards w)")
  case None
  obtain cs where "buildCard True VS_CARD_TITLE (generateInstruction render (cfg w)) ''System'' []
                  ''Verbalized Sampling - Diversity Enhancement'' 0 (storyCards w) = Inr cs"
    using buildCard_accepts by blast
  with None show ?thesis by (simp add: ensureCard_def)
next
  case (Some a)
  then show ?thesis by (simp add: ensureCard_def)
qed

lemma updateCard_accepts: "\<exists>w'. updateCard True render w = Inr w'"
proof -
  obtain w1 where "ensureCard True render w = Inr w1" using ensureCard_accepts by blast
  then show ?thesis by (simp add: updateCard_def split: option.splits)
qed

lemma getInstruction_accepts: "\<exists>r. getInstruction True render w = Inr r"
proof -
  obtain w1 where "ensureCard True render w = Inr w1" using ensureCard_accepts by blast
  then show ?thesis by (simp add: getInstruction_def)
qed

lemma correctionStep_accepts: "\<exists>w'. correctionStep True h w = Inr w'"
  unfolding correctionStep_def
  by (cases "analyzeRecentHistory (cfg w) h") (simp_all add: applyCorrections_accepts)

lemma adaptStep_accepts: "\<exists>w'. adaptStep True render w txt = Inr w'"
proof (cases "vs_enabled (vs (cfg w)) \<and> vs_adaptive (vs (cfg w))")
  case True
  let ?w = "w \<lparr> cfg := (cfg w) \<lparr> vs := (vs (cfg w)) \<lparr> vs_k := fst (analyzeContext (cfg w) txt),
                   vs_tau := snd (analyzeContext (cfg w) txt) \<rparr> \<rparr> \<rparr>"
  obtain w' where "updateCard True render ?w = Inr w'" using updateCard_accepts by blast
  with True show ?thesis by (simp add: adaptStep_def Let_def)
next
  case False
  then show ?thesis by (auto simp: adaptStep_def)
qed

lemma injectStep_accepts: "\<exists>r. injectStep True render h w txt = Inr r"
proof (cases "vs_enabled (vs (cfg w))")
  case True
  obtain r where "getInstruction True render w = Inr r" using getInstruction_accepts by blast
  with True show ?thesis by (cases r) (simp add: injectStep_def Let_def)
next
  case False
  then show ?thesis by (simp add: injectStep_def Let_def)
qed

lemma contextModifier_accepts: "\<exists>r. contextModifier True render h w txt = Inr r"
proof -
  obtain w1 where w1: "correctionStep True h w = Inr w1" using correctionStep_accepts by blast
  obtain w2 where w2: "adaptStep True render w1 txt = Inr w2" using adaptStep_accepts by blast
  obtain r where r: "injectStep True render h w2 txt = Inr r" using injectStep_accepts by blast
  show ?thesis by (simp add: contextModifier_def w1 w2 r)
qed

lemma outputModifier_definite:
  "(rstop (fst (outputModifier c h st raw)) \<and> rtext (fst (outputModifier c h st raw)) = [])
   \<or> (\<not> rstop (fst (outputModifier c h st raw))
        \<and> (\<exists>t. rtext (fst (outputModifier c h st raw)) = CHR '' '' # t))"
proof -
  obtain t where t: "sanitize h raw = CHR '' '' # t" using sanitize_starts_space by blast
  show ?thesis
    by (simp add: outputModifier_def Let_def t)
qed

text \<open>
  C3.  The library was loaded while the store accepted, so the sampling card exists; the
  store then refuses to create cards.  Loading the library again succeeds, and a call of
  the context script with no issue in the history succeeds.  With a contradiction in
  the last output the correction manager asks for a card, \<^verbatim>\<open>buildCard\<close> raises its
  error, and the error leaves the context script.
\<close>

theorem store_refusal_raises:
  "ensureCard True showTau initialWorld = Inr loadedWorld
   \<and> ensureCard False showTau loadedWorld = Inr loadedWorld
   \<and> contextModifier False showTau [] loadedWorld ''Hello'' \<noteq> Inl (Error ''Failed to create story card'')
   \<and> contextModifier False showTau poorHistory loadedWorld ''Hello''
       = Inl (Error ''Failed to create story card'')"
  by code_simp

section \<open>Correction artifacts\<close>

lemma findIndex_Some:
  "findIndex P xs = Some i \<Longrightarrow> i < length xs \<and> P (xs ! i) \<and> (\<forall>j < i. \<not> P (xs ! j))"
proof (induction xs arbitrary: i)
  case Nil
  then show ?case by simp
next
  case (Cons x xs)
  show ?case
  proof (cases "P x")
    case True
    with Cons.prems show ?thesis by simp
  next
    case False
    with Cons.prems obtain k where k: "findIndex P xs = Some k" "i = Suc k" by auto
    from Cons.IH[OF k(1)] have "k < length xs" "P (xs ! k)" "\<forall>j < k. \<not> P (xs ! j)" by auto
    then show ?thesis using k(2) False by (auto simp: nth_Cons split: nat.splits)
  qed
qed

lemma removeAt_first:
  "findIndex (\<lambda>c. f c = t) xs = Some i \<Longrightarrow> map f (removeAt i xs) = remove1 t (map f xs)"
proof (induction xs arbitrary: i)
  case Nil
  then show ?case by simp
next
  case (Cons x xs)
  show ?case
  proof (cases "f x = t")
    case True
    with Cons.prems show ?thesis by (simp add: removeAt_def)
  next
    case False
    with Cons.prems obtain k where k: "findIndex (\<lambda>c. f c = t) xs = Some k" "i = Suc k" by auto
    from Cons.IH[OF k(1)] show ?thesis using k(2) False by (auto simp: removeAt_def)
  qed
qed

lemma removeCard_titles: "map title (fst (removeCard t cards)) = remove1 t (map title cards)"
proof (cases "findIndex (\<lambda>c. title c = t) cards")
  case None
  then have "t \<notin> set (map title cards)" by (auto simp: findIndex_None)
  then show ?thesis using None by (simp add: removeCard_def remove1_idem)
next
  case (Some i)
  then show ?thesis by (simp add: removeCard_def removeAt_first)
qed

lemma correctionTitles_removeCard:
  "correctionTitles (fst (removeCard t cards)) = remove1 t (correctionTitles cards)"
  by (simp add: correctionTitles_def removeCard_titles filter_remove1)

lemma filter_drop_one:
  assumes "i < length ts" "\<not> P (ts ! i)"
  shows "filter P (take i ts @ drop (Suc i) ts) = filter P ts"
proof -
  have "ts = take i ts @ (ts ! i) # drop (Suc i) ts" using assms(1) by (simp add: id_take_nth_drop)
  then have "filter P ts = filter P (take i ts) @ filter P ((ts ! i) # drop (Suc i) ts)"
    by (metis filter_append)
  then show ?thesis using assms(2) by simp
qed

lemma temp_not_correction: "\<not> startsWith ''%TEMP%'' CARD_PREFIX"
  by (simp add: CARD_PREFIX_def)

lemma buildCard_titles:
  "\<exists>cs. buildCard True t e ty k d 0 cards = Inr cs
        \<and> correctionTitles cs = filter (\<lambda>x. startsWith x CARD_PREFIX) [t] @ correctionTitles cards"
proof -
  let ?c1 = "addStoryCard True ''%TEMP%'' cards"
  have "findIndex (\<lambda>c. title c = ''%TEMP%'') ?c1 \<noteq> None"
    by (simp add: findIndex_None addStoryCard_def)
  then obtain i where i: "findIndex (\<lambda>c. title c = ''%TEMP%'') ?c1 = Some i" by blast
  from findIndex_Some[OF i] have il: "i < length ?c1" and it: "title (?c1 ! i) = ''%TEMP%''" by auto
  let ?card = "(?c1 ! i) \<lparr> ctype := ty, title := t, keys := k, entry := e, description := d \<rparr>"
  let ?c2 = "?c1[i := ?card]"
  let ?res = "if i \<noteq> 0 then insertAt 0 ?card (removeAt i ?c2) else ?c2"
  have b: "buildCard True t e ty k d 0 cards = Inr ?res"
    using i by (simp add: buildCard_def Let_def)
  have rem: "removeAt i ?c2 = take i ?c1 @ drop (Suc i) ?c1"
    using il by (simp add: removeAt_def)
  have res: "map title ?res = t # map title (take i ?c1 @ drop (Suc i) ?c1)"
  proof (cases "i = 0")
    case True
    then show ?thesis using il by (cases ?c1) (auto)
  next
    case False
    then show ?thesis by (simp only: rem if_True insertAt_def) simp
  qed
  have "filter (\<lambda>x. startsWith x CARD_PREFIX) (map title (take i ?c1 @ drop (Suc i) ?c1))
      = filter (\<lambda>x. startsWith x CARD_PREFIX) (map title ?c1)"
    using filter_drop_one[of i "map title ?c1" "\<lambda>x. startsWith x CARD_PREFIX"] il it temp_not_correction
    by (simp add: take_map drop_map)
  also have "\<dots> = correctionTitles cards"
    using temp_not_correction by (simp add: correctionTitles_def addStoryCard_def)
  finally have "correctionTitles ?res
      = filter (\<lambda>x. startsWith x CARD_PREFIX) [t] @ correctionTitles cards"
    unfolding correctionTitles_def res by simp
  with b show ?thesis by blast
qed

lemma issueCard_effect:
  assumes "startsWith t CARD_PREFIX"
  shows "\<exists>w'. issueCard True t e d w = Inr w'
     \<and> correctionTitles (storyCards w') = t # remove1 t (correctionTitles (storyCards w))
     \<and> dynamicCards (state w') = dynamicCards (state w) @ [t]
     \<and> cfg w' = cfg w"
proof -
  obtain cs where cs: "buildCard True t e ''guidance'' [] d 0 (fst (removeCard t (storyCards w))) = Inr cs"
    "correctionTitles cs = filter (\<lambda>x. startsWith x CARD_PREFIX) [t]
        @ correctionTitles (fst (removeCard t (storyCards w)))"
    using buildCard_titles by blast
  then show ?thesis using assms
    by (simp add: issueCard_def Let_def correctionTitles_removeCard)
qed

lemma cleanup_foldl:
  "correctionTitles (foldl (\<lambda>cards ttl. fst (removeCard ttl cards)) cards ts)
     = foldl (\<lambda>xs t. remove1 t xs) (correctionTitles cards) ts"
  by (induction ts arbitrary: cards) (simp_all add: correctionTitles_removeCard)

lemma remove_all_tracked:
  "distinct xs \<Longrightarrow> set xs \<subseteq> set ts \<Longrightarrow> foldl (\<lambda>xs t. remove1 t xs) xs ts = []"
proof (induction ts arbitrary: xs)
  case Nil
  then show ?case by simp
next
  case (Cons t ts)
  have "distinct (remove1 t xs)" using Cons.prems(1) by simp
  moreover have "set (remove1 t xs) \<subseteq> set ts" using Cons.prems by auto
  ultimately show ?case using Cons.IH by simp
qed

lemma cleanup_effect:
  assumes "noOrphans w"
  shows "correctionTitles (storyCards (cleanup w)) = []"
    and "dynamicCards (state (cleanup w)) = []"
    and "cfg (cleanup w) = cfg w"
  using assms
  by (simp_all add: cleanup_def cleanup_foldl remove_all_tracked noOrphans_def)


lemma correction_keys:
  "startsWith (CARD_PREFIX @ ''Variety'') CARD_PREFIX"
  "startsWith (CARD_PREFIX @ ''Grounding'') CARD_PREFIX"
  "startsWith (CARD_PREFIX @ ''Coherence'') CARD_PREFIX"
  "CARD_PREFIX @ ''Variety'' \<noteq> CARD_PREFIX @ ''Grounding''"
  "CARD_PREFIX @ ''Variety'' \<noteq> CARD_PREFIX @ ''Coherence''"
  "CARD_PREFIX @ ''Grounding'' \<noteq> CARD_PREFIX @ ''Coherence''"
  by (simp_all add: CARD_PREFIX_def)

lemma distinct_detectedTitles: "distinct (detectedTitles a)"
  using correction_keys(4-6) by (simp add: detectedTitles_def)

lemma fatigue_step:
  assumes "correctionTitles (storyCards w) = []" "dynamicCards (state w) = []"
  shows "\<exists>w'. (if length (fatigue c) > 0 then correctFatigue True (fatigue c) w else Inr w) = Inr w'
     \<and> correctionTitles (storyCards w') = (if fatigue c \<noteq> [] then [CARD_PREFIX @ ''Variety''] else [])
     \<and> dynamicCards (state w') = (if fatigue c \<noteq> [] then [CARD_PREFIX @ ''Variety''] else [])
     \<and> cfg w' = cfg w"
proof (cases "fatigue c = []")
  case True
  then show ?thesis using assms by simp
next
  case False
  obtain w' where "issueCard True (CARD_PREFIX @ ''Variety'')
        (''[Style guidance: Avoid repeating these overused words: '' @ joinWith '', '' (take 5 (map fst (fatigue c)))
         @ ''. Use synonyms, varied phrasing, and fresh descriptions.]'')
        ''Auto-generated variety correction'' w = Inr w'"
    "correctionTitles (storyCards w') = (CARD_PREFIX @ ''Variety'') # remove1 (CARD_PREFIX @ ''Variety'') (correctionTitles (storyCards w))"
    "dynamicCards (state w') = dynamicCards (state w) @ [CARD_PREFIX @ ''Variety'']"
    "cfg w' = cfg w"
    using issueCard_effect[OF correction_keys(1)] by blast
  then show ?thesis using False assms by (simp add: correctFatigue_def Let_def)
qed

lemma drift_step:
  assumes "CARD_PREFIX @ ''Grounding'' \<notin> set (correctionTitles (storyCards w))"
  shows "\<exists>w'. (if length (drift c) > 0 then correctDrift True w else Inr w) = Inr w'
     \<and> correctionTitles (storyCards w')
         = (if drift c \<noteq> [] then [CARD_PREFIX @ ''Grounding''] else []) @ correctionTitles (storyCards w)
     \<and> dynamicCards (state w')
         = dynamicCards (state w) @ (if drift c \<noteq> [] then [CARD_PREFIX @ ''Grounding''] else [])
     \<and> cfg w' = cfg w"
proof (cases "drift c = []")
  case True
  then show ?thesis by simp
next
  case False
  obtain w' where "correctDrift True w = Inr w'"
    "correctionTitles (storyCards w') = (CARD_PREFIX @ ''Grounding'') # remove1 (CARD_PREFIX @ ''Grounding'') (correctionTitles (storyCards w))"
    "dynamicCards (state w') = dynamicCards (state w) @ [CARD_PREFIX @ ''Grounding'']"
    "cfg w' = cfg w"
    unfolding correctDrift_def using issueCard_effect[OF correction_keys(2)] by blast
  then show ?thesis using False assms by (simp add: remove1_idem)
qed

lemma contradiction_step:
  assumes "CARD_PREFIX @ ''Coherence'' \<notin> set (correctionTitles (storyCards w))"
  shows "\<exists>w'. (if length (contradictions c) > 0 then correctContradictions True w else Inr w) = Inr w'
     \<and> correctionTitles (storyCards w')
         = (if contradictions c \<noteq> [] then [CARD_PREFIX @ ''Coherence''] else []) @ correctionTitles (storyCards w)
     \<and> dynamicCards (state w')
         = dynamicCards (state w) @ (if contradictions c \<noteq> [] then [CARD_PREFIX @ ''Coherence''] else [])
     \<and> cfg w' = cfg w"
proof (cases "contradictions c = []")
  case True
  then show ?thesis by simp
next
  case False
  obtain w' where "correctContradictions True w = Inr w'"
    "correctionTitles (storyCards w') = (CARD_PREFIX @ ''Coherence'') # remove1 (CARD_PREFIX @ ''Coherence'') (correctionTitles (storyCards w))"
    "dynamicCards (state w') = dynamicCards (state w) @ [CARD_PREFIX @ ''Coherence'']"
    "cfg w' = cfg w"
    unfolding correctContradictions_def using issueCard_effect[OF correction_keys(3)] by blast
  then show ?thesis using False assms by (simp add: remove1_idem)
qed

lemma applyCorrections_effect:
  assumes "enableDynamicCorrection (bonepoke (cfg w))" "noOrphans w"
  shows "\<exists>w'. applyCorrections True (Some a) w = Inr w'
     \<and> correctionTitles (storyCards w') = rev (detectedTitles a)
     \<and> dynamicCards (state w') = detectedTitles a
     \<and> cfg w' = cfg w"
proof -
  let ?c = "composted a"
  note cl = cleanup_effect[OF assms(2)]
  obtain w1 where w1:
    "(if length (fatigue ?c) > 0 then correctFatigue True (fatigue ?c) (cleanup w) else Inr (cleanup w)) = Inr w1"
    "correctionTitles (storyCards w1) = (if fatigue ?c \<noteq> [] then [CARD_PREFIX @ ''Variety''] else [])"
    "dynamicCards (state w1) = (if fatigue ?c \<noteq> [] then [CARD_PREFIX @ ''Variety''] else [])"
    "cfg w1 = cfg (cleanup w)"
    using fatigue_step[OF cl(1) cl(2), of ?c] by blast
  have g: "CARD_PREFIX @ ''Grounding'' \<notin> set (correctionTitles (storyCards w1))"
    using w1(2) correction_keys(4) by auto
  obtain w2 where w2:
    "(if length (drift ?c) > 0 then correctDrift True w1 else Inr w1) = Inr w2"
    "correctionTitles (storyCards w2)
         = (if drift ?c \<noteq> [] then [CARD_PREFIX @ ''Grounding''] else []) @ correctionTitles (storyCards w1)"
    "dynamicCards (state w2)
         = dynamicCards (state w1) @ (if drift ?c \<noteq> [] then [CARD_PREFIX @ ''Grounding''] else [])"
    "cfg w2 = cfg w1"
    using drift_step[OF g, of ?c] by blast
  have k: "CARD_PREFIX @ ''Coherence'' \<notin> set (correctionTitles (storyCards w2))"
    using w2(2) w1(2) correction_keys(5,6) by auto
  obtain w3 where w3:
    "(if length (contradictions ?c) > 0 then correctContradictions True w2 else Inr w2) = Inr w3"
    "correctionTitles (storyCards w3)
         = (if contradictions ?c \<noteq> [] then [CARD_PREFIX @ ''Coherence''] else []) @ correctionTitles (storyCards w2)"
    "dynamicCards (state w3)
         = dynamicCards (state w2) @ (if contradictions ?c \<noteq> [] then [CARD_PREFIX @ ''Coherence''] else [])"
    "cfg w3 = cfg w2"
    using contradiction_step[OF k, of ?c] by blast
  have run: "applyCorrections True (Some a) w = Inr w3"
    unfolding applyCorrections_def option.case Let_def using assms(1) w1(1) w2(1) w3(1) by simp
  have t: "correctionTitles (storyCards w3) = rev (detectedTitles a)"
    unfolding w3(2) w2(2) w1(2) detectedTitles_def by simp
  have d: "dynamicCards (state w3) = detectedTitles a"
    unfolding w3(3) w2(3) w1(3) detectedTitles_def by simp
  have c: "cfg w3 = cfg w" using w3(4) w2(4) w1(4) cl(3) by simp
  from run t d c show ?thesis by blast
qed

lemma artifactCount_correction:
  "startsWith t CARD_PREFIX \<Longrightarrow>
     artifactCount cards t = length (filter (\<lambda>x. x = t) (correctionTitles cards))"
proof -
  assume p: "startsWith t CARD_PREFIX"
  have "filter (\<lambda>x. x = t) (correctionTitles cards) = filter (\<lambda>x. x = t) (map title cards)"
    unfolding correctionTitles_def filter_filter
    by (rule filter_cong) (insert p, auto)
  then show ?thesis
    by (simp add: artifactCount_def filter_map comp_def)
qed

text \<open>
  C4.  Dynamic correction is enabled, the store accepts the creation of cards, and the
  store has no orphan at the start (as at the start of a session, and as after every
  cycle).  Then two consecutive cycles with analyses \<open>a1\<close> and \<open>a2\<close> succeed, and after
  the second one the correction artifacts in the store are exactly the keys of the
  categories detected by \<open>a2\<close>, each once; the tracked keys are the same keys; the two
  match exactly; and each of the three categories has one artifact if \<open>a2\<close> detected it
  and none otherwise.
\<close>

theorem correction_exclusivity:
  assumes "enableDynamicCorrection (bonepoke (cfg w))" and "noOrphans w"
  shows "\<exists>w2. twoCycles True (Some a1) (Some a2) w = Inr w2
     \<and> correctionTitles (storyCards w2) = rev (detectedTitles a2)
     \<and> dynamicCards (state w2) = detectedTitles a2
     \<and> trackedExactly w2
     \<and> artifactCount (storyCards w2) (CARD_PREFIX @ ''Variety'')
         = (if fatigue (composted a2) \<noteq> [] then 1 else 0)
     \<and> artifactCount (storyCards w2) (CARD_PREFIX @ ''Grounding'')
         = (if drift (composted a2) \<noteq> [] then 1 else 0)
     \<and> artifactCount (storyCards w2) (CARD_PREFIX @ ''Coherence'')
         = (if contradictions (composted a2) \<noteq> [] then 1 else 0)"
proof -
  obtain w1 where w1: "applyCorrections True (Some a1) w = Inr w1"
    "correctionTitles (storyCards w1) = rev (detectedTitles a1)"
    "dynamicCards (state w1) = detectedTitles a1" "cfg w1 = cfg w"
    using applyCorrections_effect[OF assms] by blast
  have n1: "noOrphans w1"
    using w1(2,3) distinct_detectedTitles by (simp add: noOrphans_def)
  have e1: "enableDynamicCorrection (bonepoke (cfg w1))" using assms(1) w1(4) by simp
  obtain w2 where w2: "applyCorrections True (Some a2) w1 = Inr w2"
    "correctionTitles (storyCards w2) = rev (detectedTitles a2)"
    "dynamicCards (state w2) = detectedTitles a2"
    using applyCorrections_effect[OF e1 n1] by blast
  have r: "twoCycles True (Some a1) (Some a2) w = Inr w2"
    by (simp add: twoCycles_def w1(1) w2(1))
  have x: "trackedExactly w2"
    using w2(2,3) distinct_detectedTitles by (simp add: trackedExactly_def)
  have c1: "artifactCount (storyCards w2) (CARD_PREFIX @ ''Variety'')
         = (if fatigue (composted a2) \<noteq> [] then 1 else 0)"
    using correction_keys
    by (simp add: artifactCount_correction w2(2) detectedTitles_def)
  have c2: "artifactCount (storyCards w2) (CARD_PREFIX @ ''Grounding'')
         = (if drift (composted a2) \<noteq> [] then 1 else 0)"
    using correction_keys
    by (simp add: artifactCount_correction w2(2) detectedTitles_def)
  have c3: "artifactCount (storyCards w2) (CARD_PREFIX @ ''Coherence'')
         = (if contradictions (composted a2) \<noteq> [] then 1 else 0)"
    using correction_keys
    by (simp add: artifactCount_correction w2(2) detectedTitles_def)
  from r w2(2,3) x c1 c2 c3 show ?thesis by blast
qed

text \<open>
  C4 at the start of a session: a cycle that detects a contradiction, then a cycle that
  detects a drift, leave the grounding card alone in the store and in the tracked keys.
\<close>

theorem correction_exclusivity_witness:
  "enableDynamicCorrection (bonepoke (cfg initialWorld))
   \<and> noOrphans initialWorld
   \<and> map_sum id (\<lambda>w. (dynamicCards (state w), map title (storyCards w)))
       (twoCycles True (analyze CONFIG poorText) (analyze CONFIG driftText) initialWorld)
      = Inr ([''DynamicCorrection_Grounding''], [''DynamicCorrection_Grounding''])"
proof -
  have e: "enableDynamicCorrection (bonepoke (cfg initialWorld))" by code_simp
  have n: "noOrphans initialWorld"
    by (simp add: noOrphans_def initialWorld_def correctionTitles_def)
  have "analyze CONFIG poorText \<noteq> None" by code_simp
  then obtain a1 where a1: "analyze CONFIG poorText = Some a1" by blast
  have "map_option (\<lambda>a. (fatigue (composted a), drift (composted a), contradictions (composted a)))
          (analyze CONFIG driftText) = Some ([], [''The system hums''], [])"
    by code_simp
  then obtain a2 where a2: "analyze CONFIG driftText = Some a2"
    "fatigue (composted a2) = []" "drift (composted a2) = [''The system hums'']"
    "contradictions (composted a2) = []" by auto
  from correction_exclusivity[OF e n, of a1 a2]
  obtain w2 where w2: "twoCycles True (Some a1) (Some a2) initialWorld = Inr w2"
    "correctionTitles (storyCards w2) = rev (detectedTitles a2)"
    "dynamicCards (state w2) = detectedTitles a2" by blast
  have d: "detectedTitles a2 = [''DynamicCorrection_Grounding'']"
    using a2 by (simp add: detectedTitles_def CARD_PREFIX_def)
  have t: "map title (storyCards w2) = [''DynamicCorrection_Grounding'']"
  proof -
    have "map_sum id (\<lambda>w. map title (storyCards w))
       (twoCycles True (analyze CONFIG poorText) (analyze CONFIG driftText) initialWorld)
      = Inr [''DynamicCorrection_Grounding'']" by code_simp
    then show ?thesis using w2(1) a1 a2(1) by simp
  qed
  show ?thesis using e n w2 a1 a2(1) d t by simp
qed

section \<open>Trimming and collapsing\<close>

lemma trimStart_idem: "trimStart (trimStart s) = trimStart s"
  by (simp add: trimStart_def dropWhile_idem)

lemma trimEnd_take: "trimEnd s = take (length (trimEnd s)) s"
proof -
  have "rev s = takeWhile isWhiteSpace (rev s) @ dropWhile isWhiteSpace (rev s)" by simp
  then have "s = rev (dropWhile isWhiteSpace (rev s)) @ rev (takeWhile isWhiteSpace (rev s))"
    by (metis rev_append rev_rev_ident)
  then have "s = trimEnd s @ rev (takeWhile isWhiteSpace (rev s))" by (simp add: trimEnd_def)
  then show ?thesis by (metis append_eq_conv_conj)
qed

lemma trimStart_drop: "trimStart s = drop (length s - length (trimStart s)) s"
proof -
  let ?w = "takeWhile isWhiteSpace s"
  have e: "s = ?w @ trimStart s" by (simp add: trimStart_def)
  then have "length s = length ?w + length (trimStart s)" by (metis length_append)
  then have "length s - length (trimStart s) = length ?w" by simp
  moreover have "drop (length ?w) (?w @ trimStart s) = trimStart s" by simp
  ultimately show ?thesis using e by simp
qed

lemma trimEnd_last: "trimEnd s \<noteq> [] \<Longrightarrow> \<not> isWhiteSpace (last (trimEnd s))"
proof -
  assume "trimEnd s \<noteq> []"
  then have n: "dropWhile isWhiteSpace (rev s) \<noteq> []" by (simp add: trimEnd_def)
  then have "\<not> isWhiteSpace (hd (dropWhile isWhiteSpace (rev s)))" by (rule hd_dropWhile)
  then show ?thesis using n by (simp add: trimEnd_def last_rev)
qed

lemma trimStart_hd: "trimStart s \<noteq> [] \<Longrightarrow> \<not> isWhiteSpace (hd (trimStart s))"
  unfolding trimStart_def by (rule hd_dropWhile)

lemma trimEnd_fixed: "s = [] \<or> \<not> isWhiteSpace (last s) \<Longrightarrow> trimEnd s = s"
proof (cases s rule: rev_cases)
  case Nil
  then show ?thesis by (simp add: trimEnd_def)
next
  case (snoc ys y)
  assume "s = [] \<or> \<not> isWhiteSpace (last s)"
  with snoc show ?thesis by (simp add: trimEnd_def)
qed

lemma trimStart_fixed: "s = [] \<or> \<not> isWhiteSpace (hd s) \<Longrightarrow> trimStart s = s"
  by (cases s) (auto simp: trimStart_def)

lemma hd_trimEnd: "trimEnd s \<noteq> [] \<Longrightarrow> hd (trimEnd s) = hd s"
  by (metis trimEnd_take hd_take length_greater_0_conv)

lemma trim_hd: "trim s \<noteq> [] \<Longrightarrow> \<not> isWhiteSpace (hd (trim s))"
proof -
  assume n: "trim s \<noteq> []"
  then have "trimStart s \<noteq> []" by (auto simp: trim_def trimEnd_def)
  then have "\<not> isWhiteSpace (hd (trimStart s))" by (rule trimStart_hd)
  then show ?thesis using n hd_trimEnd[of "trimStart s"] by (simp add: trim_def)
qed

lemma trim_last: "trim s \<noteq> [] \<Longrightarrow> \<not> isWhiteSpace (last (trim s))"
  unfolding trim_def by (rule trimEnd_last)

lemma trim_fixed: "s = [] \<or> (\<not> isWhiteSpace (hd s) \<and> \<not> isWhiteSpace (last s)) \<Longrightarrow> trim s = s"
  by (auto simp: trim_def trimStart_fixed trimEnd_fixed)

lemma trim_idem: "trim (trim s) = trim s"
  using trim_hd[of s] trim_last[of s] by (intro trim_fixed) auto

lemma trim_space_Cons: "trim (CHR '' '' # t) = trim t"
  by (simp add: trim_def trimStart_def isWhiteSpace_def)

lemma hasTriple_Cons:
  "hasTriple (a # r) \<longleftrightarrow> (a = CHR 0x0A \<and> (\<exists>t. r = CHR 0x0A # CHR 0x0A # t)) \<or> hasTriple r"
proof (cases r)
  case Nil
  then show ?thesis by simp
next
  case (Cons b r')
  then show ?thesis by (cases r') auto
qed

lemma hasTriple_iff: "hasTriple s \<longleftrightarrow> (\<exists>a b. s = a @ [CHR 0x0A, CHR 0x0A, CHR 0x0A] @ b)"
proof (induction s)
  case Nil
  then show ?case by simp
next
  case (Cons c s)
  show ?case
  proof
    assume "hasTriple (c # s)"
    then consider "c = CHR 0x0A \<and> (\<exists>t. s = CHR 0x0A # CHR 0x0A # t)" | "hasTriple s"
      using hasTriple_Cons by blast
    then show "\<exists>x y. c # s = x @ [CHR 0x0A, CHR 0x0A, CHR 0x0A] @ y"
    proof cases
      case 1
      then obtain t where "c # s = [] @ [CHR 0x0A, CHR 0x0A, CHR 0x0A] @ t" by auto
      then show ?thesis by blast
    next
      case 2
      then obtain x y where "s = x @ [CHR 0x0A, CHR 0x0A, CHR 0x0A] @ y" using Cons by blast
      then have "c # s = (c # x) @ [CHR 0x0A, CHR 0x0A, CHR 0x0A] @ y" by simp
      then show ?thesis by blast
    qed
  next
    assume "\<exists>x y. c # s = x @ [CHR 0x0A, CHR 0x0A, CHR 0x0A] @ y"
    then obtain x y where xy: "c # s = x @ [CHR 0x0A, CHR 0x0A, CHR 0x0A] @ y" by blast
    show "hasTriple (c # s)"
    proof (cases x)
      case Nil
      with xy have "c = CHR 0x0A \<and> s = CHR 0x0A # CHR 0x0A # y" by simp
      then show ?thesis using hasTriple_Cons by blast
    next
      case (Cons d x')
      with xy have "s = x' @ [CHR 0x0A, CHR 0x0A, CHR 0x0A] @ y" by simp
      then have "hasTriple s" using Cons.IH by blast
      then show ?thesis using hasTriple_Cons by blast
    qed
  qed
qed

lemma hasTriple_drop: "\<not> hasTriple s \<Longrightarrow> \<not> hasTriple (drop n s)"
proof
  assume a: "\<not> hasTriple s" and "hasTriple (drop n s)"
  then obtain x y where "drop n s = x @ [CHR 0x0A, CHR 0x0A, CHR 0x0A] @ y"
    by (auto simp: hasTriple_iff)
  then have "s = (take n s @ x) @ [CHR 0x0A, CHR 0x0A, CHR 0x0A] @ y"
    by (metis append_assoc append_take_drop_id)
  then have "hasTriple s" unfolding hasTriple_iff by blast
  with a show False by simp
qed

lemma hasTriple_take: "\<not> hasTriple s \<Longrightarrow> \<not> hasTriple (take n s)"
proof
  assume a: "\<not> hasTriple s" and "hasTriple (take n s)"
  then obtain x y where "take n s = x @ [CHR 0x0A, CHR 0x0A, CHR 0x0A] @ y"
    by (auto simp: hasTriple_iff)
  then have "s = x @ [CHR 0x0A, CHR 0x0A, CHR 0x0A] @ (y @ drop n s)"
    by (metis append_assoc append_take_drop_id)
  then have "hasTriple s" unfolding hasTriple_iff by blast
  with a show False by simp
qed

lemma hasTriple_trim: "\<not> hasTriple s \<Longrightarrow> \<not> hasTriple (trim s)"
proof -
  assume a: "\<not> hasTriple s"
  have "trimStart s = drop (length s - length (trimStart s)) s" by (rule trimStart_drop)
  then have "\<not> hasTriple (trimStart s)" using hasTriple_drop[OF a] by metis
  then have "\<not> hasTriple (take (length (trimEnd (trimStart s))) (trimStart s))"
    by (rule hasTriple_take)
  then show ?thesis unfolding trim_def using trimEnd_take[of "trimStart s"] by simp
qed

lemma collapse_fixed: "\<not> hasTriple s \<Longrightarrow> collapseNewlines s = s"
  by (induction s rule: collapseNewlines.induct) auto

lemma collapse_Nil: "collapseNewlines s = [] \<longleftrightarrow> s = []"
  by (induction s rule: collapseNewlines.induct) auto

lemma hd_collapse: "hd (collapseNewlines s) = hd s"
  by (induction s rule: collapseNewlines.induct) auto

lemma last_collapse: "last (collapseNewlines s) = last s"
  by (induction s rule: collapseNewlines.induct) (auto simp: collapse_Nil)

lemma collapse_starts: "collapseNewlines s = CHR 0x0A # CHR 0x0A # t \<Longrightarrow> \<exists>u. s = CHR 0x0A # CHR 0x0A # u"
proof (induction s arbitrary: t rule: collapseNewlines.induct)
  case (1 a b c s)
  show ?case
  proof (cases "a = CHR 0x0A \<and> b = CHR 0x0A \<and> c = CHR 0x0A")
    case True
    then show ?thesis by simp
  next
    case False
    with 1(3) have e: "a = CHR 0x0A" "collapseNewlines (b # c # s) = CHR 0x0A # t" by auto
    then have "hd (collapseNewlines (b # c # s)) = CHR 0x0A" by simp
    then have "b = CHR 0x0A" by (simp add: hd_collapse)
    with e show ?thesis by simp
  qed
qed simp_all

lemma collapse_no_triple: "\<not> hasTriple (collapseNewlines s)"
proof (induction s rule: collapseNewlines.induct)
  case (1 a b c s)
  show ?case
  proof (cases "a = CHR 0x0A \<and> b = CHR 0x0A \<and> c = CHR 0x0A")
    case True
    with 1 show ?thesis by simp
  next
    case False
    then have e: "collapseNewlines (a # b # c # s) = a # collapseNewlines (b # c # s)" by auto
    have n: "\<not> hasTriple (collapseNewlines (b # c # s))" using 1 False by simp
    have "\<not> (a = CHR 0x0A \<and> (\<exists>t. collapseNewlines (b # c # s) = CHR 0x0A # CHR 0x0A # t))"
    proof
      assume h: "a = CHR 0x0A \<and> (\<exists>t. collapseNewlines (b # c # s) = CHR 0x0A # CHR 0x0A # t)"
      then obtain t where "collapseNewlines (b # c # s) = CHR 0x0A # CHR 0x0A # t" by blast
      from collapse_starts[OF this] have "b = CHR 0x0A \<and> c = CHR 0x0A" by simp
      with h False show False by simp
    qed
    with n e show ?thesis by (simp only: hasTriple_Cons) simp
  qed
qed simp_all


section \<open>Idempotence of the sanitizer\<close>

lemma trim_collapse:
  assumes "trim u = u"
  shows "trim (collapseNewlines u) = collapseNewlines u"
proof (cases "u = []")
  case True
  then show ?thesis by (simp add: trim_def trimStart_def trimEnd_def)
next
  case False
  then have "trim u \<noteq> []" using assms by simp
  then have "\<not> isWhiteSpace (hd u)" "\<not> isWhiteSpace (last u)"
    using trim_hd[of u] trim_last[of u] assms by simp_all
  then show ?thesis
    by (intro trim_fixed) (simp add: hd_collapse last_collapse)
qed

lemma cleanOutput_shape:
  "trim (cleanOutput x) = cleanOutput x" "\<not> hasTriple (cleanOutput x)"
  by (simp_all add: cleanOutput_def Let_def trim_collapse trim_idem collapse_no_triple)

lemma dedupLoop_cases:
  "dedupLoop chunk lens t = t \<or> (\<exists>n. dedupLoop chunk lens t = trim (drop n (trim t)))"
  by (induction lens) (auto simp: Let_def)

lemma removeDuplicateStart_shape:
  assumes "trim t = t" "\<not> hasTriple t"
  shows "trim (removeDuplicateStart h t) = removeDuplicateStart h t"
    and "\<not> hasTriple (removeDuplicateStart h t)"
proof -
  have c: "removeDuplicateStart h t = t \<or> (\<exists>n. removeDuplicateStart h t = trim (drop n (trim t)))"
    using dedupLoop_cases by (auto simp: removeDuplicateStart_def split: option.splits)
  show "trim (removeDuplicateStart h t) = removeDuplicateStart h t"
    using c assms(1) trim_idem by auto
  show "\<not> hasTriple (removeDuplicateStart h t)"
    using c assms hasTriple_trim hasTriple_drop by auto
qed

lemma trimmed_no_space: "trim t = t \<Longrightarrow> \<not> startsWith t '' ''"
proof
  assume t: "trim t = t" and "startsWith t '' ''"
  then obtain r where r: "t = CHR '' '' # r" by (auto simp: startsWith_iff)
  then have "trim t \<noteq> []" using t by simp
  then have "\<not> isWhiteSpace (hd (trim t))" by (rule trim_hd)
  with t r show False by (simp add: isWhiteSpace_def)
qed

lemma sanitize_shape:
  "\<exists>t. sanitize h x = CHR '' '' # t \<and> trim t = t \<and> \<not> hasTriple t"
proof -
  let ?t = "removeDuplicateStart h (cleanOutput x)"
  have 1: "trim ?t = ?t" and 2: "\<not> hasTriple ?t"
    using removeDuplicateStart_shape[OF cleanOutput_shape] by auto
  have "sanitize h x = CHR '' '' # ?t"
    using trimmed_no_space[OF 1] by (simp add: sanitize_def Let_def)
  with 1 2 show ?thesis by blast
qed

text \<open>
  C5, as stated, fails.  The text \<^verbatim>\<open>stop stop\<close> holds no markup and no directive fragment;
  one pass removes the trailing \<^verbatim>\<open>stop\<close> and leaves a text that ends in \<^verbatim>\<open>stop\<close> again, which
  the second pass removes.
\<close>

theorem idempotence_counterexample:
  "stripLeaks ''stop stop'' = ''stop stop''
   \<and> sanitize [] ''stop stop'' = '' stop''
   \<and> sanitize [] (sanitize [] ''stop stop'') = '' ''"
  by code_simp

text \<open>
  C5, amended.  If the result of the first pass holds nothing that the stripping steps
  would remove (no markup, no directive, no instruction fragment, no trailing
  \<^verbatim>\<open>stop\<close>) and does not start with a duplicate of the tail of the prior turn, then a
  second pass returns it unchanged: trimming, the collapsing of line feeds and the
  leading space are idempotent.
\<close>

theorem sanitize_idempotent:
  assumes "stripStop (stripLeaks (sanitize h x)) = sanitize h x"
    and "removeDuplicateStart h (cleanOutput (sanitize h x)) = cleanOutput (sanitize h x)"
  shows "sanitize h (sanitize h x) = sanitize h x"
proof -
  obtain t where t: "sanitize h x = CHR '' '' # t" "trim t = t" "\<not> hasTriple t"
    using sanitize_shape by blast
  have "cleanOutput (sanitize h x) = collapseNewlines (trim (trim (sanitize h x)))"
    using assms(1) by (simp add: cleanOutput_def Let_def)
  also have "\<dots> = collapseNewlines t"
    by (simp add: t(1,2) trim_space_Cons)
  also have "\<dots> = t" using t(3) by (rule collapse_fixed)
  finally have c: "cleanOutput (sanitize h x) = t" .
  have "removeDuplicateStart h t = t" using assms(2) c by simp
  then have "sanitize h (sanitize h x) = CHR '' '' # t"
    using c trimmed_no_space[OF t(2)] by (simp add: sanitize_def[of h "sanitize h x"] Let_def)
  with t(1) show ?thesis by simp
qed

text \<open>
  C5, amended, at a sentence without history.
\<close>

theorem sanitize_idempotent_witness:
  "stripStop (stripLeaks (sanitize [] ''The door opened.'')) = sanitize [] ''The door opened.''
   \<and> sanitize [] ''The door opened.'' = '' The door opened.''
   \<and> sanitize [] (sanitize [] ''The door opened.'') = '' The door opened.''"
proof -
  have s: "sanitize [] ''The door opened.'' = '' The door opened.''" by code_simp
  have h1: "stripStop (stripLeaks (sanitize [] ''The door opened.'')) = sanitize [] ''The door opened.''"
    unfolding s by code_simp
  have h2: "removeDuplicateStart [] (cleanOutput (sanitize [] ''The door opened.''))
      = cleanOutput (sanitize [] ''The door opened.'')"
    by (simp add: removeDuplicateStart_def lastAIOutput_def)
  from sanitize_idempotent[OF h1 h2] s h1 show ?thesis by simp
qed

section \<open>Duplicate suppression\<close>

lemma dedupLoop_none:
  assumes "\<forall>len \<in> set lens. \<not> (trim (lastN len chunk) \<noteq> [] \<and> startsWith (trim txt) (trim (lastN len chunk)))"
  shows "dedupLoop chunk lens txt = txt"
  using assms by (induction lens) (auto simp: Let_def)

lemma dedupLoop_first:
  assumes "\<forall>l \<in> set xs. \<not> (trim (lastN l chunk) \<noteq> [] \<and> startsWith (trim txt) (trim (lastN l chunk)))"
    and "trim (lastN len chunk) \<noteq> []" "startsWith (trim txt) (trim (lastN len chunk))"
  shows "dedupLoop chunk (xs @ len # ys) txt = trim (drop (length (trim (lastN len chunk))) (trim txt))"
  using assms by (induction xs) (auto simp: Let_def)

lemma candidateLengths_split:
  assumes "10 \<le> len" "len \<le> 50"
  shows "candidateLengths = rev [Suc len..<51] @ len # rev [10..<len]"
proof -
  have "[10..<len + (51 - len)] = [10..<len] @ [len..<len + (51 - len)]"
    using assms(1) by (rule upt_add_eq_append)
  moreover have "len + (51 - len) = 51" using assms(2) by simp
  ultimately have "[10..<51] = [10..<len] @ [len..<51]" by simp
  also have "[len..<51] = len # [Suc len..<51]" using assms by (simp add: upt_conv_Cons)
  finally show ?thesis by (simp add: candidateLengths_def)
qed


lemma removeDuplicateStart_loop:
  assumes "lastAIOutput history = Some h" "htext h \<noteq> []"
  shows "removeDuplicateStart history txt = dedupLoop (lastN 100 (htext h)) candidateLengths txt"
  using assms by (simp add: removeDuplicateStart_def)

lemma candidateLengths_set: "set candidateLengths = {len. 10 \<le> len \<and> len \<le> 50}"
proof -
  have "set candidateLengths = {10..<51}"
    unfolding candidateLengths_def by (simp only: set_rev set_upt)
  then show ?thesis by auto
qed

lemma removeDuplicateStart_none:
  assumes "lastAIOutput history = Some h" "htext h \<noteq> []"
    and "\<forall>len. 10 \<le> len \<and> len \<le> 50 \<longrightarrow> \<not> duplicateMatch (htext h) txt len"
  shows "removeDuplicateStart history txt = txt"
proof -
  have "\<forall>len \<in> set candidateLengths.
      \<not> (trim (lastN len (lastN 100 (htext h))) \<noteq> []
         \<and> startsWith (trim txt) (trim (lastN len (lastN 100 (htext h)))))"
    using assms(3) by (simp add: candidateLengths_set duplicateMatch_def duplicateCandidate_def)
  then show ?thesis
    unfolding removeDuplicateStart_loop[OF assms(1,2)] by (rule dedupLoop_none)
qed

lemma removeDuplicateStart_longest:
  assumes "lastAIOutput history = Some h" "htext h \<noteq> []"
    and "10 \<le> len" "len \<le> 50" "duplicateMatch (htext h) txt len"
    and "\<forall>l. len < l \<and> l \<le> 50 \<longrightarrow> \<not> duplicateMatch (htext h) txt l"
  shows "removeDuplicateStart history txt
     = trim (drop (length (duplicateCandidate len (htext h))) (trim txt))"
proof -
  let ?chunk = "lastN 100 (htext h)"
  have a: "\<forall>l \<in> set (rev [Suc len..<51]).
      \<not> (trim (lastN l ?chunk) \<noteq> [] \<and> startsWith (trim txt) (trim (lastN l ?chunk)))"
    using assms(6) by (simp add: duplicateMatch_def duplicateCandidate_def)
  have b: "trim (lastN len ?chunk) \<noteq> []" "startsWith (trim txt) (trim (lastN len ?chunk))"
    using assms(5) by (simp_all add: duplicateMatch_def duplicateCandidate_def)
  show ?thesis
    unfolding removeDuplicateStart_loop[OF assms(1,2)] candidateLengths_split[OF assms(3,4)]
      duplicateCandidate_def
    using a b by (rule dedupLoop_first)
qed

lemma lastN_lastN: "len \<le> n \<Longrightarrow> lastN len (lastN n s) = lastN len s"
proof -
  assume a: "len \<le> n"
  have "length s - (length s - n) - len + (length s - n) = length s - len" using a by arith
  then show ?thesis by (simp add: lastN_def)
qed


lemma lastN_append: "length d \<le> len \<Longrightarrow> lastN len (p @ d) = lastN (len - length d) p @ d"
proof -
  assume a: "length d \<le> len"
  have e: "length p + length d - len = length p - (len - length d)" using a by arith
  show ?thesis unfolding lastN_def length_append e by simp
qed

lemma trim_before_doorTail: "trim (q @ doorTail) = dropWhile isWhiteSpace q @ doorTail"
proof -
  have d: "dropWhile isWhiteSpace doorTail = doorTail"
    by (simp add: doorTail_def isWhiteSpace_def)
  have s: "trimStart (q @ doorTail) = dropWhile isWhiteSpace q @ doorTail"
  proof (cases "\<forall>c \<in> set q. isWhiteSpace c")
    case True
    then have "dropWhile isWhiteSpace q = []" by simp
    moreover have "dropWhile isWhiteSpace (q @ doorTail) = dropWhile isWhiteSpace doorTail"
      using True by (intro dropWhile_append2) simp
    ultimately show ?thesis using d by (simp add: trimStart_def)
  next
    case False
    then obtain c where "c \<in> set q" "\<not> isWhiteSpace c" by blast
    then show ?thesis unfolding trimStart_def by (rule dropWhile_append1)
  qed
  have "\<not> isWhiteSpace (last (dropWhile isWhiteSpace q @ doorTail))"
    by (simp add: doorTail_def isWhiteSpace_def)
  then have "trimEnd (dropWhile isWhiteSpace q @ doorTail) = dropWhile isWhiteSpace q @ doorTail"
    by (intro trimEnd_fixed) simp
  then show ?thesis by (simp add: trim_def s)
qed

lemma doorText_facts:
  "cleanOutput doorText = doorText" "trim doorText = doorText"
  "trim (drop (length doorTail) (trim doorText)) = ''and walked in''"
  "startsWith (trim doorText) doorTail" "doorTail \<noteq> []" "length doorTail = 19"
  by code_simp+

lemma doorTail_once:
  assumes "startsWith doorText (q @ doorTail)"
  shows "q = []"
proof (rule ccontr)
  assume n: "q \<noteq> []"
  obtain r where r: "doorText = q @ doorTail @ r"
    using assms by (auto simp: startsWith_iff)
  then have "length doorText = length q + length doorTail + length r" by (metis length_append add.assoc)
  then have k: "1 \<le> length q" "length q < 15" using n by (simp_all add: doorText_def doorTail_def Suc_le_eq)
  have "drop (length q) doorText = doorTail @ r" by (subst r) simp
  then have t: "take 19 (drop (length q) doorText) = doorTail"
    by (simp add: doorText_facts(6))
  have "\<forall>k \<in> set [1..<15]. take 19 (drop k doorText) \<noteq> doorTail" by code_simp
  moreover have "length q \<in> set [1..<15]" using k by simp
  ultimately show False using t by blast
qed

lemma door_candidate:
  assumes "19 \<le> l" "l \<le> 100"
  shows "\<exists>q. trim (lastN l (lastN 100 (p @ doorTail))) = q @ doorTail"
proof -
  have "lastN l (lastN 100 (p @ doorTail)) = lastN l (p @ doorTail)"
    using assms(2) by (rule lastN_lastN)
  also have "\<dots> = lastN (l - length doorTail) p @ doorTail"
    using assms(1) by (intro lastN_append) (simp add: doorText_facts)
  finally show ?thesis by (simp add: trim_before_doorTail)
qed

lemma door_loop:
  assumes "\<forall>l \<in> set xs. 19 \<le> l \<and> l \<le> 100"
  shows "dedupLoop (lastN 100 (p @ doorTail)) (xs @ 19 # ys) doorText = ''and walked in''"
  using assms
proof (induction xs)
  case Nil
  have "lastN 19 (lastN 100 (p @ doorTail)) = lastN 19 (p @ doorTail)"
    by (rule lastN_lastN) simp
  also have "\<dots> = lastN (19 - length doorTail) p @ doorTail"
    by (intro lastN_append) (simp add: doorText_facts)
  also have "\<dots> = doorTail" by (simp add: doorText_facts lastN_def)
  finally have c: "trim (lastN 19 (lastN 100 (p @ doorTail))) = doorTail"
    using trim_before_doorTail[of "[]"] by simp
  show ?case using c doorText_facts by (simp add: Let_def)
next
  case (Cons l xs)
  then have l: "19 \<le> l" "l \<le> 100" by auto
  obtain q where q: "trim (lastN l (lastN 100 (p @ doorTail))) = q @ doorTail"
    using door_candidate[OF l] by blast
  show ?case
  proof (cases "startsWith (trim doorText) (q @ doorTail)")
    case True
    then have "q = []" using doorTail_once by (simp add: doorText_facts)
    then show ?thesis using q True doorText_facts by (simp add: Let_def)
  next
    case False
    then show ?thesis using q Cons by (simp add: Let_def)
  qed
qed

lemma door_example:
  assumes "lastAIOutput history = Some h" "htext h = p @ doorTail"
  shows "sanitize history doorText = '' and walked in''"
proof -
  have ne: "htext h \<noteq> []" using assms(2) doorText_facts(5) by simp
  have "candidateLengths = rev [Suc 19..<51] @ 19 # rev [10..<19]"
    by (rule candidateLengths_split) simp_all
  moreover have "\<forall>l \<in> set (rev [Suc 19..<51]). 19 \<le> l \<and> l \<le> 100" by auto
  ultimately have "dedupLoop (lastN 100 (p @ doorTail)) candidateLengths doorText = ''and walked in''"
    using door_loop by metis
  then have "removeDuplicateStart history (cleanOutput doorText) = ''and walked in''"
    using removeDuplicateStart_loop[OF assms(1) ne] assms(2) by (simp add: doorText_facts)
  then show ?thesis by (simp add: sanitize_def Let_def)
qed

text \<open>
  C6, as stated, fails in its general part.  The prior turn ends in
  \<^verbatim>\<open>knock knock knock knock\<close> and a space, the new text is \<^verbatim>\<open>knock knock knock knock!\<close>.  The
  longest suffix of the prior turn that is a prefix of the text has 18 characters, and
  removing it leaves \<^verbatim>\<open>knock!\<close>; the script trims each candidate first, matches the
  candidate of 23 characters and leaves \<^verbatim>\<open>!\<close>.
\<close>

theorem duplicate_counterexample:
  "sanitize [\<lparr> htype = ''ai'', htext = knockPrior \<rparr>] knockText = '' !''
   \<and> cleanOutput knockText = knockText
   \<and> find (\<lambda>len. startsWith (trim knockText) (lastN len (lastN 100 knockPrior))) candidateLengths
       = Some 18
   \<and> spec_removeDuplicateStart knockPrior knockText = ''knock!''"
  by code_simp

text \<open>
  C6, amended.  For a prior turn that ends in \<^verbatim>\<open>she opened the door\<close> and the raw text
  \<^verbatim>\<open>she opened the door and walked in\<close> the sanitizer yields \<^verbatim>\<open>and walked in\<close> behind the
  leading space.  In general the candidates are the last \<open>len\<close> characters of the last
  100 characters of the prior turn, trimmed of white space, for \<open>len\<close> from 50 down to
  10.  If no candidate is non-empty and a prefix of the trimmed text, the text is left as
  it is; otherwise the candidate of the greatest such \<open>len\<close> is removed from the
  trimmed text and the rest is trimmed.
\<close>

theorem duplicate_suppression:
  assumes "lastAIOutput history = Some h"
  shows "(htext h = p @ ''she opened the door'' \<longrightarrow>
           sanitize history ''she opened the door and walked in'' = '' and walked in'')
       \<and> (htext h \<noteq> [] \<and> (\<forall>len. 10 \<le> len \<and> len \<le> 50 \<longrightarrow> \<not> duplicateMatch (htext h) txt len)
            \<longrightarrow> removeDuplicateStart history txt = txt)
       \<and> (htext h \<noteq> [] \<and> 10 \<le> n \<and> n \<le> 50 \<and> duplicateMatch (htext h) txt n
            \<and> (\<forall>l. n < l \<and> l \<le> 50 \<longrightarrow> \<not> duplicateMatch (htext h) txt l)
            \<longrightarrow> removeDuplicateStart history txt
                  = trim (drop (length (duplicateCandidate n (htext h))) (trim txt)))"
proof -
  have A: "htext h = p @ ''she opened the door'' \<longrightarrow>
           sanitize history ''she opened the door and walked in'' = '' and walked in''"
    using door_example[OF assms, of p] by (simp add: doorTail_def doorText_def)
  have B: "htext h \<noteq> [] \<and> (\<forall>len. 10 \<le> len \<and> len \<le> 50 \<longrightarrow> \<not> duplicateMatch (htext h) txt len)
            \<longrightarrow> removeDuplicateStart history txt = txt"
    using removeDuplicateStart_none[OF assms] by blast
  have C: "htext h \<noteq> [] \<and> 10 \<le> n \<and> n \<le> 50 \<and> duplicateMatch (htext h) txt n
            \<and> (\<forall>l. n < l \<and> l \<le> 50 \<longrightarrow> \<not> duplicateMatch (htext h) txt l)
            \<longrightarrow> removeDuplicateStart history txt
                  = trim (drop (length (duplicateCandidate n (htext h))) (trim txt))"
    using removeDuplicateStart_longest[OF assms] by blast
  from A B C show ?thesis by blast
qed

text \<open>
  C6, amended, at the prior turn \<^verbatim>\<open>...she opened the door\<close> and at the texts of the
  counterexample, where the candidate of length 25 is the first to match.
\<close>

theorem duplicate_suppression_witness:
  "lastAIOutput [\<lparr> htype = ''ai'', htext = ''...she opened the door'' \<rparr>]
     = Some \<lparr> htype = ''ai'', htext = ''...she opened the door'' \<rparr>
   \<and> sanitize [\<lparr> htype = ''ai'', htext = ''...she opened the door'' \<rparr>]
        ''she opened the door and walked in'' = '' and walked in''
   \<and> duplicateMatch knockPrior knockText 25
   \<and> duplicateCandidate 25 knockPrior = ''knock knock knock knock''
   \<and> removeDuplicateStart [\<lparr> htype = ''ai'', htext = knockPrior \<rparr>] knockText = ''!''"
proof -
  let ?h = "\<lparr> htype = ''ai'', htext = ''...she opened the door'' \<rparr>"
  let ?k = "\<lparr> htype = ''ai'', htext = knockPrior \<rparr>"
  have l1: "lastAIOutput [?h] = Some ?h" by (simp add: lastAIOutput_def)
  have l2: "lastAIOutput [?k] = Some ?k" by (simp add: lastAIOutput_def)
  have e: "htext ?h = ''...'' @ ''she opened the door''" by simp
  from duplicate_suppression[OF l1, of "''...''"] e
  have s: "sanitize [?h] ''she opened the door and walked in'' = '' and walked in''" by blast
  have m: "duplicateMatch knockPrior knockText 25" by code_simp
  have c: "duplicateCandidate 25 knockPrior = ''knock knock knock knock''" by code_simp
  have u: "\<forall>l \<in> set [26..<51]. \<not> duplicateMatch knockPrior knockText l" by code_simp
  have u': "\<forall>l. 25 < l \<and> l \<le> 50 \<longrightarrow> \<not> duplicateMatch knockPrior knockText l"
  proof (intro allI impI)
    fix l :: nat
    assume "25 < l \<and> l \<le> 50"
    then have "l \<in> set [26..<51]" unfolding set_upt by simp
    with u show "\<not> duplicateMatch knockPrior knockText l" by blast
  qed
  have ne: "htext ?k \<noteq> []" by (simp add: knockPrior_def)
  have t: "trim (drop (length (duplicateCandidate 25 knockPrior)) (trim knockText)) = ''!''"
    by code_simp
  note T2 = duplicate_suppression[OF l2, of _ knockText 25]
  from T2 ne m u'
  have "removeDuplicateStart [?k] knockText
      = trim (drop (length (duplicateCandidate 25 (htext ?k))) (trim knockText))"
    by simp
  then have r: "removeDuplicateStart [?k] knockText = ''!''" using t by simp
  from l1 s m c r show ?thesis by simp
qed

end
